theory Spec2Isabelle
  imports Main
begin

section \<open>Data model of rush\_hour.py\<close>

text \<open>
  \<^verbatim>\<open>Direction = Enum("Direction", ["HORIZONTAL", "VERTICAL"])\<close> and
  \<^verbatim>\<open>Car = namedtuple("Car", ["name", "x", "y", "size", "direction"])\<close>.
  The namedtuple field \<^verbatim>\<open>direction\<close> is untyped, so it can hold a value that is not a
  member of the enum; \<open>Other k\<close> stands for such a value (the tag keeps different values
  different). The fields are prefixed with \<open>car_\<close>: \<open>x\<close>, \<open>y\<close> and \<open>size\<close> as constants
  would capture the variables of every later statement. \<open>car_x\<close> is the row and \<open>car_y\<close>
  the column, as \<^verbatim>\<open>board[car.x][car.y + i]\<close> reads them.
\<close>

datatype direction = HORIZONTAL | VERTICAL | Other nat

record car =
  car_name :: string
  car_x :: int
  car_y :: int
  car_size :: int
  car_direction :: direction

type_synonym state = "car list"
type_synonym board = "string list list"

datatype error = ValueError | IndexError | TypeError

definition BOARD_SIZE :: int where
  "BOARD_SIZE = 6"

definition EMPTY_CELL :: string where
  "EMPTY_CELL = '' ''"

definition ENDPOINT :: car where
  "ENDPOINT = \<lparr>car_name = ''r'', car_x = 2, car_y = 4, car_size = 2, car_direction = HORIZONTAL\<rparr>"

subsection \<open>Python list indexing\<close>

text \<open>
  \<^verbatim>\<open>xs[i]\<close> with an integer index: a negative index counts from the end, and an index
  outside \<open>-len .. len - 1\<close> raises IndexError, for a read and for an assignment alike.
\<close>

definition norm_index :: "nat \<Rightarrow> int \<Rightarrow> error + nat" where
  "norm_index n i =
     (let j = (if i < 0 then int n + i else i)
      in if 0 \<le> j \<and> j < int n then Inr (nat j) else Inl IndexError)"

definition getitem :: "'a list \<Rightarrow> int \<Rightarrow> error + 'a" where
  "getitem xs i = (case norm_index (length xs) i of Inl e \<Rightarrow> Inl e | Inr j \<Rightarrow> Inr (xs ! j))"

definition setitem :: "'a list \<Rightarrow> int \<Rightarrow> 'a \<Rightarrow> error + 'a list" where
  "setitem xs i v = (case norm_index (length xs) i of Inl e \<Rightarrow> Inl e | Inr j \<Rightarrow> Inr (xs[j := v]))"

definition py_range :: "int \<Rightarrow> int list" where
  "py_range n = map int [0..<nat n]"

section \<open>Board construction: get\_board\<close>

definition empty_board :: board where
  "empty_board = replicate (nat BOARD_SIZE) (replicate (nat BOARD_SIZE) EMPTY_CELL)"

text \<open>\<^verbatim>\<open>board[r][c] = v\<close>: the row is fetched, then assigned in place.\<close>

definition set_cell :: "board \<Rightarrow> int \<Rightarrow> int \<Rightarrow> string \<Rightarrow> error + board" where
  "set_cell b r c v =
     (case getitem b r of
        Inl e \<Rightarrow> Inl e
      | Inr row \<Rightarrow> (case setitem row c v of Inl e \<Rightarrow> Inl e | Inr row' \<Rightarrow> setitem b r row'))"

fun place_cells :: "board \<Rightarrow> (int \<times> int) list \<Rightarrow> string \<Rightarrow> error + board" where
  "place_cells b [] v = Inr b"
| "place_cells b ((r, c) # rest) v =
     (case set_cell b r c v of Inl e \<Rightarrow> Inl e | Inr b' \<Rightarrow> place_cells b' rest v)"

text \<open>The body of the loop over the cars: one branch per direction, ValueError otherwise.\<close>

definition place_car :: "board \<Rightarrow> car \<Rightarrow> error + board" where
  "place_car b c =
     (case car_direction c of
        HORIZONTAL \<Rightarrow>
          place_cells b (map (\<lambda>i. (car_x c, car_y c + i)) (py_range (car_size c))) (car_name c)
      | VERTICAL \<Rightarrow>
          place_cells b (map (\<lambda>i. (car_x c + i, car_y c)) (py_range (car_size c))) (car_name c)
      | Other k \<Rightarrow> Inl ValueError)"

fun place_cars :: "board \<Rightarrow> car list \<Rightarrow> error + board" where
  "place_cars b [] = Inr b"
| "place_cars b (c # cs) =
     (case place_car b c of Inl e \<Rightarrow> Inl e | Inr b' \<Rightarrow> place_cars b' cs)"

definition get_board :: "state \<Rightarrow> error + board" where
  "get_board cars = place_cars empty_board cars"

section \<open>The move generator: update\_cars\_tuple and possible\_moves\<close>

definition update_cars_tuple :: "state \<Rightarrow> int \<Rightarrow> car \<Rightarrow> error + state" where
  "update_cars_tuple cars index new_car = setitem cars index new_car"

text \<open>
  A Python generator is modelled by what it does when it is run to its end: the values it
  yields, in order, and the exception that ends it, if one does.
\<close>

type_synonym 'a gen = "'a list \<times> error option"

definition gen_then :: "'a gen \<Rightarrow> 'a gen \<Rightarrow> 'a gen" where
  "gen_then g h =
     (case g of (ys, Some e) \<Rightarrow> (ys, Some e) | (ys, None) \<Rightarrow> (ys @ fst h, snd h))"

text \<open>\<^verbatim>\<open>board[r][c] == EMPTY_CELL\<close>\<close>

definition cell_is_empty :: "board \<Rightarrow> int \<Rightarrow> int \<Rightarrow> error + bool" where
  "cell_is_empty b r c =
     (case getitem b r of
        Inl e \<Rightarrow> Inl e
      | Inr row \<Rightarrow> (case getitem row c of Inl e \<Rightarrow> Inl e | Inr v \<Rightarrow> Inr (v = EMPTY_CELL)))"

text \<open>
  \<^verbatim>\<open>if cond: yield update_car(new_car)\<close>, where evaluating the condition or the update
  may raise.
\<close>

definition try_move :: "error + bool \<Rightarrow> state \<Rightarrow> int \<Rightarrow> car \<Rightarrow> state gen" where
  "try_move cond cars i new_car =
     (case cond of
        Inl e \<Rightarrow> ([], Some e)
      | Inr ok \<Rightarrow>
          if ok then
            (case update_cars_tuple cars i new_car of
               Inl e \<Rightarrow> ([], Some e)
             | Inr s \<Rightarrow> ([s], None))
          else ([], None))"

definition car_moves :: "board \<Rightarrow> state \<Rightarrow> nat \<Rightarrow> car \<Rightarrow> state gen" where
  "car_moves b cars i c =
     (case car_direction c of
        HORIZONTAL \<Rightarrow>
          gen_then
            (try_move
               (if car_y c + car_size c < BOARD_SIZE
                then cell_is_empty b (car_x c) (car_y c + car_size c) else Inr False)
               cars (int i)
               \<lparr>car_name = car_name c, car_x = car_x c, car_y = car_y c + 1,
                car_size = car_size c, car_direction = car_direction c\<rparr>)
            (try_move
               (if car_y c > 0 then cell_is_empty b (car_x c) (car_y c - 1) else Inr False)
               cars (int i)
               \<lparr>car_name = car_name c, car_x = car_x c, car_y = car_y c - 1,
                car_size = car_size c, car_direction = car_direction c\<rparr>)
      | VERTICAL \<Rightarrow>
          gen_then
            (try_move
               (if car_x c + car_size c < BOARD_SIZE
                then cell_is_empty b (car_x c + car_size c) (car_y c) else Inr False)
               cars (int i)
               \<lparr>car_name = car_name c, car_x = car_x c + 1, car_y = car_y c,
                car_size = car_size c, car_direction = car_direction c\<rparr>)
            (try_move
               (if car_x c > 0 then cell_is_empty b (car_x c - 1) (car_y c) else Inr False)
               cars (int i)
               \<lparr>car_name = car_name c, car_x = car_x c - 1, car_y = car_y c,
                car_size = car_size c, car_direction = car_direction c\<rparr>)
      | Other k \<Rightarrow> ([], Some ValueError))"

text \<open>Running several generators one after the other: the first exception ends the run.\<close>

fun gen_concat :: "'a gen list \<Rightarrow> 'a gen" where
  "gen_concat [] = ([], None)"
| "gen_concat (g # gs) = gen_then g (gen_concat gs)"

text \<open>
  The board is built when the generator starts; then \<^verbatim>\<open>for i, car in enumerate(cars)\<close>
  runs the body for each car in turn.
\<close>

definition possible_moves :: "state \<Rightarrow> state gen" where
  "possible_moves cars =
     (case get_board cars of
        Inl e \<Rightarrow> ([], Some e)
      | Inr b \<Rightarrow> gen_concat (map (\<lambda>(i, c). car_moves b cars i c) (enumerate 0 cars)))"

section \<open>The move log: print\_moves\<close>

text \<open>
  The calls of \<^verbatim>\<open>logging.info\<close> and \<^verbatim>\<open>logging.debug\<close> are recorded as a list of
  log lines, one constructor per format string.
\<close>

datatype log_line =
    TotalSteps int
  | Up string
  | Down string
  | Left string
  | Right string
  | DebugBoards "board list"
  | InitialBoard board
  | Duration

definition car_steps :: "car \<Rightarrow> car \<Rightarrow> log_line list" where
  "car_steps car1 car2 =
     (if car1 \<noteq> car2 then
        (if car_x car1 > car_x car2 then [Up (car_name car1)] else []) @
        (if car_x car1 < car_x car2 then [Down (car_name car1)] else []) @
        (if car_y car1 > car_y car2 then [Left (car_name car1)] else []) @
        (if car_y car1 < car_y car2 then [Right (car_name car1)] else [])
      else [])"

definition pair_steps :: "state \<Rightarrow> state \<Rightarrow> log_line list" where
  "pair_steps s t = concat (map (\<lambda>(car1, car2). car_steps car1 car2) (zip s t))"

definition print_moves :: "state list \<Rightarrow> log_line list" where
  "print_moves history =
     TotalSteps (int (length history) - 1) #
     concat (map (\<lambda>i. pair_steps (history ! i) (history ! Suc i)) [0..<length history - 1])"

section \<open>The solver: run\<close>

text \<open>
  What a call leaves behind: the lines it logged, and the exception it raised, if any.
  \<^verbatim>\<open>run\<close> has no return statement, so a call that ends normally returns \<^verbatim>\<open>None\<close>.
\<close>

type_synonym outcome = "log_line list \<times> error option"

text \<open>\<^verbatim>\<open>[get_board(cars) for cars in history]\<close>, evaluated before \<^verbatim>\<open>logging.debug\<close> is called.\<close>

fun boards_of :: "state list \<Rightarrow> error + board list" where
  "boards_of [] = Inr []"
| "boards_of (s # ss) =
     (case get_board s of
        Inl e \<Rightarrow> Inl e
      | Inr b \<Rightarrow> (case boards_of ss of Inl e \<Rightarrow> Inl e | Inr bs \<Rightarrow> Inr (b # bs)))"

text \<open>
  One iteration of \<^verbatim>\<open>while queue\<close>. The deque is a list whose head is its right end:
  \<^verbatim>\<open>pop\<close> takes the head, \<^verbatim>\<open>extendleft\<close> appends at the end, in the order of the
  generator. An exception of the generator leaves \<^verbatim>\<open>run\<close> through \<^verbatim>\<open>extendleft\<close>.
\<close>

datatype progress =
    Running "state set" "(state \<times> state list) list"
  | Finished outcome

definition run_step ::
  "state set \<Rightarrow> state \<times> state list \<Rightarrow> (state \<times> state list) list \<Rightarrow> progress" where
  "run_step boards_seen entry queue =
     (case entry of (board, history) \<Rightarrow>
        if board \<in> boards_seen then Running boards_seen queue
        else
          let history' = history @ [board] in
          if ENDPOINT \<in> set board then
            (case boards_of history' of
               Inl e \<Rightarrow> Finished (print_moves history', Some e)
             | Inr bs \<Rightarrow> Finished (print_moves history' @ [DebugBoards bs], None))
          else
            (case possible_moves board of
               (ms, Some e) \<Rightarrow> Finished ([], Some e)
             | (ms, None) \<Rightarrow>
                 Running (insert board boards_seen) (queue @ map (\<lambda>m. (m, history')) ms)))"

text \<open>The loop, with fuel: \<open>None\<close> is "still running when the fuel ran out".\<close>

fun run_loop :: "nat \<Rightarrow> state set \<Rightarrow> (state \<times> state list) list \<Rightarrow> outcome option" where
  "run_loop fuel boards_seen [] = Some ([], None)"
| "run_loop 0 boards_seen (entry # queue) = None"
| "run_loop (Suc fuel) boards_seen (entry # queue) =
     (case run_step boards_seen entry queue of
        Finished r \<Rightarrow> Some r
      | Running seen' queue' \<Rightarrow> run_loop fuel seen' queue')"

definition run :: "nat \<Rightarrow> state \<Rightarrow> outcome option" where
  "run fuel initial_cars = run_loop fuel {} [(initial_cars, [])]"

text \<open>
  \<^verbatim>\<open>run\<close> has no return statement: the loop is left by \<^verbatim>\<open>break\<close> on success and by
  the queue running empty otherwise, and in both cases the call evaluates to \<^verbatim>\<open>None\<close>,
  whatever it has logged; a call that raises evaluates to nothing.
\<close>

datatype py_value = PyNone | PyBool bool | PyInt int | PyStr string

definition returned :: "outcome \<Rightarrow> py_value option" where
  "returned r = (case snd r of None \<Rightarrow> Some PyNone | Some e \<Rightarrow> None)"

section \<open>Reading the configuration and the main program\<close>

text \<open>
  \<^verbatim>\<open>read_setup\<close> runs over the rows that \<^verbatim>\<open>csv.reader\<close> yields, each a list of
  strings. \<^verbatim>\<open>Car._make\<close> raises TypeError for a row that has not five fields; the
  direction code is tested before the fields are converted; \<^verbatim>\<open>int\<close> is the builtin of
  Python, a parameter here. The generator is run to its end by \<^verbatim>\<open>tuple\<close>, so the first
  exception is the result.
\<close>

fun read_setup :: "(string \<Rightarrow> error + int) \<Rightarrow> string list list \<Rightarrow> error + state" where
  "read_setup to_int [] = Inr []"
| "read_setup to_int (row # rows) =
     (case row of
        [n, sx, sy, ss, d] \<Rightarrow>
          if d = ''H'' \<or> d = ''V'' then
            (case to_int sx of
               Inl e \<Rightarrow> Inl e
             | Inr vx \<Rightarrow>
                 (case to_int sy of
                    Inl e \<Rightarrow> Inl e
                  | Inr vy \<Rightarrow>
                      (case to_int ss of
                         Inl e \<Rightarrow> Inl e
                       | Inr vs \<Rightarrow>
                           (case read_setup to_int rows of
                              Inl e \<Rightarrow> Inl e
                            | Inr cars \<Rightarrow>
                                Inr (\<lparr>car_name = n, car_x = vx, car_y = vy, car_size = vs,
                                      car_direction = (if d = ''H'' then HORIZONTAL else VERTICAL)\<rparr>
                                     # cars)))))
          else Inl ValueError
      | _ \<Rightarrow> Inl TypeError)"

text \<open>
  The part of \<^verbatim>\<open>main\<close> from the initial tuple on: the initial board is built and logged,
  then the search runs, then the duration is logged (its value, a clock reading, is left
  out).
\<close>

definition main_body :: "nat \<Rightarrow> state \<Rightarrow> outcome option" where
  "main_body fuel initial_cars =
     (case get_board initial_cars of
        Inl e \<Rightarrow> Some ([], Some e)
      | Inr b \<Rightarrow>
          (case run fuel initial_cars of
             None \<Rightarrow> None
           | Some (log, Some e) \<Rightarrow> Some (InitialBoard b # log, Some e)
           | Some (log, None) \<Rightarrow> Some (InitialBoard b # log @ [Duration], None)))"

text \<open>
  \<^verbatim>\<open>main\<close>, from the rows of the file on: an exception of \<^verbatim>\<open>read_setup\<close> ends the
  program before anything is logged.
\<close>

definition main :: "(string \<Rightarrow> error + int) \<Rightarrow> nat \<Rightarrow> string list list \<Rightarrow> outcome option" where
  "main to_int fuel rows =
     (case read_setup to_int rows of
        Inl e \<Rightarrow> Some ([], Some e)
      | Inr initial_cars \<Rightarrow> main_body fuel initial_cars)"

section \<open>Vocabulary of the properties\<close>

text \<open>
  The cells a car is written to by \<^verbatim>\<open>get_board\<close>, in the order of its loops; a car whose
  direction is no member of the enum is written nowhere (the call raises instead).
\<close>

definition footprint :: "car \<Rightarrow> (int \<times> int) list" where
  "footprint c =
     (case car_direction c of
        HORIZONTAL \<Rightarrow> map (\<lambda>i. (car_x c, car_y c + i)) (py_range (car_size c))
      | VERTICAL \<Rightarrow> map (\<lambda>i. (car_x c + i, car_y c)) (py_range (car_size c))
      | Other k \<Rightarrow> [])"

text \<open>
  A cell of the 6 x 6 grid; a pair of indices that Python accepts on a list of 6 lists of 6
  (an index from \<open>-6\<close> to \<open>-1\<close> counts from the end); a board of 6 rows of 6 cells.
\<close>

definition in_grid :: "int \<times> int \<Rightarrow> bool" where
  "in_grid p = (0 \<le> fst p \<and> fst p < BOARD_SIZE \<and> 0 \<le> snd p \<and> snd p < BOARD_SIZE)"

definition writable :: "int \<times> int \<Rightarrow> bool" where
  "writable p = (- BOARD_SIZE \<le> fst p \<and> fst p < BOARD_SIZE \<and> - BOARD_SIZE \<le> snd p \<and> snd p < BOARD_SIZE)"

definition shape :: "board \<Rightarrow> bool" where
  "shape b = (length b = 6 \<and> (\<forall>row \<in> set b. length row = 6))"

text \<open>
  A car that \<^verbatim>\<open>get_board\<close> can write: its direction is a member of the enum and Python
  accepts the indices of its cells.
\<close>

definition placeable :: "car \<Rightarrow> bool" where
  "placeable c =
     ((car_direction c = HORIZONTAL \<or> car_direction c = VERTICAL) \<and>
      (\<forall>p \<in> set (footprint c). writable p))"

text \<open>
  A car in bounds: horizontal or vertical, of size at least 1, every cell of its footprint in
  the grid. A state in bounds is made of such cars; they may overlap.
\<close>

definition in_bounds_car :: "car \<Rightarrow> bool" where
  "in_bounds_car c =
     ((car_direction c = HORIZONTAL \<or> car_direction c = VERTICAL) \<and> 1 \<le> car_size c \<and>
      (\<forall>p \<in> set (footprint c). in_grid p))"

definition in_bounds :: "state \<Rightarrow> bool" where
  "in_bounds cars = (\<forall>c \<in> set cars. in_bounds_car c)"

text \<open>
  Every footprint lies inside the grid and no two cars of the state share a cell.
\<close>

definition well_formed :: "state \<Rightarrow> bool" where
  "well_formed cars =
     ((\<forall>c \<in> set cars. \<forall>p \<in> set (footprint c). in_grid p) \<and>
      (\<forall>i < length cars. \<forall>j < length cars.
         i \<noteq> j \<longrightarrow> set (footprint (cars ! i)) \<inter> set (footprint (cars ! j)) = {}))"

text \<open>
  The cars that the body of the loop of \<^verbatim>\<open>possible_moves\<close> builds for one car when no
  lookup raises: right, then left, for a horizontal car; down, then up, for a vertical one.
\<close>

definition slides :: "board \<Rightarrow> car \<Rightarrow> car list" where
  "slides b c =
     (case car_direction c of
        HORIZONTAL \<Rightarrow>
          (if car_y c + car_size c < BOARD_SIZE \<and>
              cell_is_empty b (car_x c) (car_y c + car_size c) = Inr True
           then [c\<lparr>car_y := car_y c + 1\<rparr>] else []) @
          (if car_y c > 0 \<and> cell_is_empty b (car_x c) (car_y c - 1) = Inr True
           then [c\<lparr>car_y := car_y c - 1\<rparr>] else [])
      | VERTICAL \<Rightarrow>
          (if car_x c + car_size c < BOARD_SIZE \<and>
              cell_is_empty b (car_x c + car_size c) (car_y c) = Inr True
           then [c\<lparr>car_x := car_x c + 1\<rparr>] else []) @
          (if car_x c > 0 \<and> cell_is_empty b (car_x c - 1) (car_y c) = Inr True
           then [c\<lparr>car_x := car_x c - 1\<rparr>] else [])
      | Other k \<Rightarrow> [])"

text \<open>
  Two states list cars of the same names, sizes and directions at the same indices.
  \<open>move_rel\<close> relates a state to each successor the generator yields from it; a valid
  path is a list of states each of which the generator yields from the one before it.
\<close>

definition same_layout :: "state \<Rightarrow> state \<Rightarrow> bool" where
  "same_layout s t =
     (length t = length s \<and>
      (\<forall>i < length s. car_name (t ! i) = car_name (s ! i) \<and> car_size (t ! i) = car_size (s ! i) \<and>
                       car_direction (t ! i) = car_direction (s ! i)))"

definition move_rel :: "(state \<times> state) set" where
  "move_rel = {(s, t). t \<in> set (fst (possible_moves s))}"

fun valid_path :: "state list \<Rightarrow> bool" where
  "valid_path [] = True"
| "valid_path [s] = True"
| "valid_path (s # t # rest) = (t \<in> set (fst (possible_moves s)) \<and> valid_path (t # rest))"

text \<open>
  Two states of the same arity differ in one car only, and that car differs in its row only
  or in its column only.
\<close>

definition single_move :: "state \<Rightarrow> state \<Rightarrow> bool" where
  "single_move s t =
     (length t = length s \<and>
      (\<exists>k < length s.
         (\<forall>i < length s. i \<noteq> k \<longrightarrow> t ! i = s ! i) \<and>
         car_name (t ! k) = car_name (s ! k) \<and> car_size (t ! k) = car_size (s ! k) \<and>
         car_direction (t ! k) = car_direction (s ! k) \<and>
         ((car_x (t ! k) \<noteq> car_x (s ! k) \<and> car_y (t ! k) = car_y (s ! k)) \<or>
          (car_x (t ! k) = car_x (s ! k) \<and> car_y (t ! k) \<noteq> car_y (s ! k)))))"

text \<open>
  A row of the file reads as a car: five fields, the first the name, the next three
  converting to the row, the column and the size, the last the code of the direction.
\<close>

definition row_reads_as :: "(string \<Rightarrow> error + int) \<Rightarrow> string list \<Rightarrow> car \<Rightarrow> bool" where
  "row_reads_as to_int row c =
     (\<exists>sx sy ss d. row = [car_name c, sx, sy, ss, d] \<and>
        to_int sx = Inr (car_x c) \<and> to_int sy = Inr (car_y c) \<and> to_int ss = Inr (car_size c) \<and>
        ((d = ''H'' \<and> car_direction c = HORIZONTAL) \<or> (d = ''V'' \<and> car_direction c = VERTICAL)))"

text \<open>
  The invariant of the loop of \<^verbatim>\<open>run\<close>, for the initial configuration \<open>s0\<close>: the initial
  state is seen or is all there is in the queue; every queue entry pairs a state with a
  path of moves from \<open>s0\<close> to its predecessor; the lengths of these paths are sorted along
  the queue and differ by at most one; every state seen is reachable and is no goal; every
  successor of a state seen is seen, or queued with a path not longer than one more than any
  path to that state.
\<close>

definition bfs_inv :: "state \<Rightarrow> state set \<Rightarrow> (state \<times> state list) list \<Rightarrow> bool" where
  "bfs_inv s0 seen queue =
     ((s0 \<in> seen \<or> (seen = {} \<and> queue = [(s0, [])])) \<and>
      (\<forall>e \<in> set queue. valid_path (snd e @ [fst e]) \<and> hd (snd e @ [fst e]) = s0) \<and>
      sorted (map (\<lambda>e. length (snd e)) queue) \<and>
      (\<forall>e \<in> set queue. \<forall>e' \<in> set queue. length (snd e) \<le> Suc (length (snd e'))) \<and>
      (\<forall>s \<in> seen. ENDPOINT \<notin> set s \<and> (s0, s) \<in> move_rel\<^sup>*) \<and>
      (\<forall>s \<in> seen. \<forall>t \<in> set (fst (possible_moves s)).
         t \<in> seen \<or>
         (\<exists>h. (t, h) \<in> set queue \<and> (\<forall>n. (s0, s) \<in> move_rel ^^ n \<longrightarrow> length h \<le> Suc n))))"

text \<open>
  What a finished search has established: either nothing was logged and no reachable state
  is a goal, or the log is that of a path of moves from \<open>s0\<close> to a goal that no path to any
  goal undercuts.
\<close>

definition bfs_post :: "state \<Rightarrow> outcome \<Rightarrow> bool" where
  "bfs_post s0 r =
     ((r = ([], None) \<and> (\<forall>g. (s0, g) \<in> move_rel\<^sup>* \<longrightarrow> ENDPOINT \<notin> set g)) \<or>
      (\<exists>path bs. r = (print_moves path @ [DebugBoards bs], None) \<and> path \<noteq> [] \<and>
         hd path = s0 \<and> valid_path path \<and> ENDPOINT \<in> set (last path) \<and>
         boards_of path = Inr bs \<and>
         (\<forall>n g. (s0, g) \<in> move_rel ^^ n \<and> ENDPOINT \<in> set g \<longrightarrow> length path - 1 \<le> n)))"

subsection \<open>The legal moves of the specification\<close>

text \<open>
  The legal moves, written from the words of the specification (section 4.3) and not from
  the code: no board is built. A cell is occupied when the footprint of some car of the
  state covers it. A horizontal car may move right iff column + size < 6 and the cell right
  of its last cell is not occupied, left iff column > 0 and the cell left of its first
  cell is not occupied; a vertical car likewise down and up. A legal move replaces one car
  of the state by that car moved one cell.
\<close>

definition occupied :: "state \<Rightarrow> int \<times> int \<Rightarrow> bool" where
  "occupied s p = (\<exists>c \<in> set s. p \<in> set (footprint c))"

definition legal_slides :: "state \<Rightarrow> car \<Rightarrow> car list" where
  "legal_slides s c =
     (case car_direction c of
        HORIZONTAL \<Rightarrow>
          (if car_y c + car_size c < BOARD_SIZE \<and> \<not> occupied s (car_x c, car_y c + car_size c)
           then [c\<lparr>car_y := car_y c + 1\<rparr>] else []) @
          (if car_y c > 0 \<and> \<not> occupied s (car_x c, car_y c - 1)
           then [c\<lparr>car_y := car_y c - 1\<rparr>] else [])
      | VERTICAL \<Rightarrow>
          (if car_x c + car_size c < BOARD_SIZE \<and> \<not> occupied s (car_x c + car_size c, car_y c)
           then [c\<lparr>car_x := car_x c + 1\<rparr>] else []) @
          (if car_x c > 0 \<and> \<not> occupied s (car_x c - 1, car_y c)
           then [c\<lparr>car_x := car_x c - 1\<rparr>] else [])
      | Other k \<Rightarrow> [])"

definition legal_moves :: "state \<Rightarrow> state list" where
  "legal_moves s = concat (map (\<lambda>(k, c). map (\<lambda>c'. s[k := c']) (legal_slides s c)) (enumerate 0 s))"

definition legal_rel :: "(state \<times> state) set" where
  "legal_rel = {(s, t). t \<in> set (legal_moves s)}"

fun legal_path :: "state list \<Rightarrow> bool" where
  "legal_path [] = True"
| "legal_path [s] = True"
| "legal_path (s # t # rest) = (t \<in> set (legal_moves s) \<and> legal_path (t # rest))"

definition no_blank_name :: "state \<Rightarrow> bool" where
  "no_blank_name s = (\<forall>c \<in> set s. car_name c \<noteq> EMPTY_CELL)"

text \<open>
  The states that exactly \<open>n\<close> legal moves lead to.
\<close>

fun legal_after :: "nat \<Rightarrow> state \<Rightarrow> state list" where
  "legal_after 0 s = [s]"
| "legal_after (Suc n) s = concat (map legal_moves (legal_after n s))"

subsection \<open>Example states\<close>

text \<open>
  Two cars with a free way to the goal, and the same two cars listed in the other order; a
  single car that is not the target; two cars whose footprints share a cell, in a row and
  crossing; a car in row 6; a car named by the empty marker, and the successor in which its
  neighbour has moved onto it; a path with a move along a row and one with a diagonal
  change.
\<close>

definition two_cars :: state where
  "two_cars =
     [\<lparr>car_name = ''r'', car_x = 2, car_y = 3, car_size = 2, car_direction = HORIZONTAL\<rparr>,
      \<lparr>car_name = ''b'', car_x = 3, car_y = 5, car_size = 2, car_direction = VERTICAL\<rparr>]"

definition swapped_cars :: state where
  "swapped_cars =
     [\<lparr>car_name = ''b'', car_x = 3, car_y = 5, car_size = 2, car_direction = VERTICAL\<rparr>,
      \<lparr>car_name = ''r'', car_x = 2, car_y = 3, car_size = 2, car_direction = HORIZONTAL\<rparr>]"

definition lone_car :: state where
  "lone_car =
     [\<lparr>car_name = ''b'', car_x = 0, car_y = 0, car_size = 2, car_direction = HORIZONTAL\<rparr>]"

definition overlap_example :: state where
  "overlap_example =
     [\<lparr>car_name = ''a'', car_x = 0, car_y = 0, car_size = 2, car_direction = HORIZONTAL\<rparr>,
      \<lparr>car_name = ''b'', car_x = 0, car_y = 1, car_size = 2, car_direction = HORIZONTAL\<rparr>]"

definition crossing_example :: state where
  "crossing_example =
     [\<lparr>car_name = ''r'', car_x = 2, car_y = 3, car_size = 2, car_direction = HORIZONTAL\<rparr>,
      \<lparr>car_name = ''b'', car_x = 2, car_y = 4, car_size = 2, car_direction = VERTICAL\<rparr>]"

definition outside_example :: state where
  "outside_example =
     [\<lparr>car_name = ''a'', car_x = 6, car_y = 0, car_size = 2, car_direction = HORIZONTAL\<rparr>]"

definition blank_name_example :: state where
  "blank_name_example =
     [\<lparr>car_name = '' '', car_x = 0, car_y = 2, car_size = 2, car_direction = HORIZONTAL\<rparr>,
      \<lparr>car_name = ''a'', car_x = 0, car_y = 0, car_size = 2, car_direction = HORIZONTAL\<rparr>]"

definition blank_name_successor :: state where
  "blank_name_successor =
     [\<lparr>car_name = '' '', car_x = 0, car_y = 2, car_size = 2, car_direction = HORIZONTAL\<rparr>,
      \<lparr>car_name = ''a'', car_x = 0, car_y = 1, car_size = 2, car_direction = HORIZONTAL\<rparr>]"

definition straight_path :: "state list" where
  "straight_path =
     [[\<lparr>car_name = ''a'', car_x = 0, car_y = 0, car_size = 2, car_direction = HORIZONTAL\<rparr>],
      [\<lparr>car_name = ''a'', car_x = 0, car_y = 1, car_size = 2, car_direction = HORIZONTAL\<rparr>]]"

definition diagonal_path :: "state list" where
  "diagonal_path =
     [[\<lparr>car_name = ''a'', car_x = 0, car_y = 0, car_size = 2, car_direction = HORIZONTAL\<rparr>],
      [\<lparr>car_name = ''a'', car_x = 1, car_y = 1, car_size = 2, car_direction = HORIZONTAL\<rparr>]]"

text \<open>
  Configurations with a car named by the empty marker: one that blocks the way of car "r",
  and one in which no car has a legal move.
\<close>

definition blank_blocker :: state where
  "blank_blocker =
     [\<lparr>car_name = ''r'', car_x = 2, car_y = 3, car_size = 2, car_direction = HORIZONTAL\<rparr>,
      \<lparr>car_name = '' '', car_x = 0, car_y = 5, car_size = 3, car_direction = VERTICAL\<rparr>]"

definition blank_wall :: state where
  "blank_wall =
     [\<lparr>car_name = ''r'', car_x = 2, car_y = 3, car_size = 2, car_direction = HORIZONTAL\<rparr>,
      \<lparr>car_name = ''u'', car_x = 2, car_y = 0, car_size = 3, car_direction = HORIZONTAL\<rparr>,
      \<lparr>car_name = '' '', car_x = 0, car_y = 5, car_size = 3, car_direction = VERTICAL\<rparr>,
      \<lparr>car_name = ''t'', car_x = 3, car_y = 5, car_size = 3, car_direction = VERTICAL\<rparr>]"

text \<open>
  Four legal moves from \<^verbatim>\<open>blank_blocker\<close> to a goal state: the car named by the empty
  marker moves down three times, then car "r" moves right.
\<close>

definition blocker_path :: "state list" where
  "blocker_path =
     [[\<lparr>car_name = ''r'', car_x = 2, car_y = 3, car_size = 2, car_direction = HORIZONTAL\<rparr>,
       \<lparr>car_name = '' '', car_x = 0, car_y = 5, car_size = 3, car_direction = VERTICAL\<rparr>],
      [\<lparr>car_name = ''r'', car_x = 2, car_y = 3, car_size = 2, car_direction = HORIZONTAL\<rparr>,
       \<lparr>car_name = '' '', car_x = 1, car_y = 5, car_size = 3, car_direction = VERTICAL\<rparr>],
      [\<lparr>car_name = ''r'', car_x = 2, car_y = 3, car_size = 2, car_direction = HORIZONTAL\<rparr>,
       \<lparr>car_name = '' '', car_x = 2, car_y = 5, car_size = 3, car_direction = VERTICAL\<rparr>],
      [\<lparr>car_name = ''r'', car_x = 2, car_y = 3, car_size = 2, car_direction = HORIZONTAL\<rparr>,
       \<lparr>car_name = '' '', car_x = 3, car_y = 5, car_size = 3, car_direction = VERTICAL\<rparr>],
      [\<lparr>car_name = ''r'', car_x = 2, car_y = 4, car_size = 2, car_direction = HORIZONTAL\<rparr>,
       \<lparr>car_name = '' '', car_x = 3, car_y = 5, car_size = 3, car_direction = VERTICAL\<rparr>]]"

section \<open>Lemmas\<close>

subsection \<open>Indexing and the shape of the board\<close>

lemma norm_index_nonneg: "0 \<le> i \<Longrightarrow> i < int n \<Longrightarrow> norm_index n i = Inr (nat i)"
  by (simp add: norm_index_def)

lemma norm_index_ok_iff: "(\<exists>j. norm_index n i = Inr j) \<longleftrightarrow> - int n \<le> i \<and> i < int n"
  by (auto simp: norm_index_def Let_def)

lemma norm_index_less: "norm_index n i = Inr j \<Longrightarrow> j < n"
  by (auto simp: norm_index_def Let_def split: if_splits)

lemma norm_index_err: "norm_index n i = Inl e \<Longrightarrow> e = IndexError"
  by (auto simp: norm_index_def Let_def split: if_splits)

lemma shape_empty_board: "shape empty_board"
  by (simp add: shape_def empty_board_def BOARD_SIZE_def)

lemma shape_update: "shape b \<Longrightarrow> length row = 6 \<Longrightarrow> shape (b[j := row])"
  by (auto simp: shape_def dest: set_update_subset_insert [THEN subsetD])

lemma shape_row: "shape b \<Longrightarrow> j < 6 \<Longrightarrow> length (b ! j) = 6"
  by (simp add: shape_def)

lemma set_cell_ok_iff:
  assumes "shape b"
  shows "(\<exists>b'. set_cell b r c v = Inr b') \<longleftrightarrow> writable (r, c)"
proof -
  have len: "length b = 6" using assms by (simp add: shape_def)
  show ?thesis
  proof (cases "norm_index 6 r")
    case (Inl e)
    then have "\<not> (- 6 \<le> r \<and> r < 6)" using norm_index_ok_iff [of 6 r] by auto
    then show ?thesis using Inl len
      by (auto simp: set_cell_def getitem_def writable_def BOARD_SIZE_def)
  next
    case (Inr j)
    then have j: "j < 6" by (rule norm_index_less)
    have r: "- 6 \<le> r \<and> r < 6" using Inr norm_index_ok_iff [of 6 r] by auto
    have row: "length (b ! j) = 6" using assms j by (rule shape_row)
    show ?thesis
    proof (cases "norm_index 6 c")
      case (Inl e)
      then have "\<not> (- 6 \<le> c \<and> c < 6)" using norm_index_ok_iff [of 6 c] by auto
      then show ?thesis using Inl Inr len row
        by (auto simp: set_cell_def getitem_def setitem_def writable_def BOARD_SIZE_def)
    next
      case c: (Inr k)
      have "- 6 \<le> c \<and> c < 6" using c norm_index_ok_iff [of 6 c] by auto
      then show ?thesis using c Inr len row r
        by (auto simp: set_cell_def getitem_def setitem_def writable_def BOARD_SIZE_def)
    qed
  qed
qed

lemma set_cell_err: "set_cell b r c v = Inl e \<Longrightarrow> e = IndexError"
  by (auto simp: set_cell_def getitem_def setitem_def split: sum.splits dest: norm_index_err)

lemma set_cell_shape:
  assumes "shape b" and "set_cell b r c v = Inr b'"
  shows "shape b'"
proof -
  obtain j k where b': "b' = b[j := (b ! j)[k := v]]" and j: "j < 6"
    using assms
    by (auto simp: set_cell_def getitem_def setitem_def shape_def split: sum.splits
        dest!: norm_index_less)
  have "length ((b ! j)[k := v]) = 6" using assms(1) j by (simp add: shape_row)
  then show ?thesis unfolding b' using assms(1) by (rule shape_update [rotated])
qed

lemma set_cell_in_grid:
  assumes "shape b" and "in_grid (r, c)"
  shows "set_cell b r c v = Inr (b[nat r := (b ! nat r)[nat c := v]])"
proof -
  have len: "length b = 6" using assms by (simp add: shape_def)
  have r: "0 \<le> r" "r < 6" and c: "0 \<le> c" "c < 6"
    using assms(2) by (simp_all add: in_grid_def BOARD_SIZE_def)
  have row: "length (b ! nat r) = 6" using assms(1) r by (intro shape_row) auto
  show ?thesis using len r c row
    by (simp add: set_cell_def getitem_def setitem_def norm_index_nonneg)
qed

subsection \<open>Writing footprints on the board\<close>

lemma in_grid_writable: "in_grid p \<Longrightarrow> writable p"
  by (simp add: in_grid_def writable_def BOARD_SIZE_def)

lemma place_cells_ok_iff:
  "shape b \<Longrightarrow> (\<exists>b'. place_cells b cells v = Inr b') \<longleftrightarrow> (\<forall>p \<in> set cells. writable p)"
proof (induction cells arbitrary: b)
  case Nil
  then show ?case by simp
next
  case (Cons p cells)
  obtain r c where p: "p = (r, c)" by (cases p)
  show ?case
  proof (cases "set_cell b r c v")
    case (Inl e)
    then have "\<not> writable (r, c)" using set_cell_ok_iff [OF Cons.prems, of r c v] by auto
    then show ?thesis using Inl p by simp
  next
    case (Inr b1)
    then have w: "writable (r, c)" using set_cell_ok_iff [OF Cons.prems, of r c v] by auto
    have "shape b1" using Cons.prems Inr by (rule set_cell_shape)
    from Cons.IH [OF this] show ?thesis using Inr p w by simp
  qed
qed

lemma place_cells_err: "place_cells b cells v = Inl e \<Longrightarrow> e = IndexError"
  by (induction b cells v rule: place_cells.induct) (auto split: sum.splits dest: set_cell_err)

lemma place_cells_shape:
  "shape b \<Longrightarrow> place_cells b cells v = Inr b' \<Longrightarrow> shape b'"
proof (induction cells arbitrary: b)
  case Nil
  then show ?case by simp
next
  case (Cons p cells)
  obtain r c where p: "p = (r, c)" by (cases p)
  from Cons.prems(2) obtain b1 where b1: "set_cell b r c v = Inr b1"
    and rest: "place_cells b1 cells v = Inr b'"
    unfolding p by (auto split: sum.splits)
  have "shape b1" using Cons.prems(1) b1 by (rule set_cell_shape)
  then show ?case using rest by (rule Cons.IH)
qed

lemma nth_cell_update:
  assumes "shape b" and "i < 6" and "j < 6" and "r < 6" and "c < 6"
  shows "b[i := (b ! i)[j := v]] ! r ! c = (if r = i \<and> c = j then v else b ! r ! c)"
proof -
  have "length b = 6" and "length (b ! i) = 6" using assms by (simp_all add: shape_def)
  then show ?thesis using assms by (auto simp: nth_list_update)
qed

lemma place_cells_content:
  "shape b \<Longrightarrow> \<forall>p \<in> set cells. in_grid p \<Longrightarrow> place_cells b cells v = Inr b' \<Longrightarrow>
   r < 6 \<Longrightarrow> c < 6 \<Longrightarrow>
   b' ! r ! c = (if (int r, int c) \<in> set cells then v else b ! r ! c)"
proof (induction cells arbitrary: b)
  case Nil
  then show ?case by simp
next
  case (Cons p cells)
  obtain r0 c0 where p: "p = (r0, c0)" by (cases p)
  have g: "in_grid (r0, c0)" using Cons.prems(2) p by simp
  then have bounds: "0 \<le> r0" "r0 < 6" "0 \<le> c0" "c0 < 6"
    by (simp_all add: in_grid_def BOARD_SIZE_def)
  define b1 where "b1 = b[nat r0 := (b ! nat r0)[nat c0 := v]]"
  have sc: "set_cell b r0 c0 v = Inr b1"
    unfolding b1_def using Cons.prems(1) g by (rule set_cell_in_grid)
  have sh1: "shape b1" using Cons.prems(1) sc by (rule set_cell_shape)
  have rest: "place_cells b1 cells v = Inr b'" using Cons.prems(3) sc p by simp
  have ih: "b' ! r ! c = (if (int r, int c) \<in> set cells then v else b1 ! r ! c)"
    using Cons.IH [OF sh1 _ rest Cons.prems(4,5)] Cons.prems(2) by simp
  have b1v: "b1 ! r ! c = (if r = nat r0 \<and> c = nat c0 then v else b ! r ! c)"
    unfolding b1_def using Cons.prems(1,4,5) bounds by (intro nth_cell_update) auto
  have eq: "(r = nat r0 \<and> c = nat c0) \<longleftrightarrow> (int r, int c) = (r0, c0)"
    using bounds by auto
  show ?case unfolding ih b1v eq p by auto
qed

lemma place_car_footprint:
  "place_car b c =
     (case car_direction c of Other k \<Rightarrow> Inl ValueError
      | _ \<Rightarrow> place_cells b (footprint c) (car_name c))"
  by (simp add: place_car_def footprint_def split: direction.splits)

lemma place_car_ok_iff:
  "shape b \<Longrightarrow> (\<exists>b'. place_car b c = Inr b') \<longleftrightarrow> placeable c"
  using place_cells_ok_iff [of b "footprint c" "car_name c"]
  by (cases "car_direction c") (simp_all add: place_car_footprint placeable_def)

lemma place_car_shape: "shape b \<Longrightarrow> place_car b c = Inr b' \<Longrightarrow> shape b'"
  by (cases "car_direction c") (auto simp: place_car_footprint dest: place_cells_shape)

lemma place_car_content:
  assumes "shape b" and "\<forall>p \<in> set (footprint c). in_grid p" and "place_car b c = Inr b'"
    and "i < 6" and "j < 6"
  shows "b' ! i ! j = (if (int i, int j) \<in> set (footprint c) then car_name c else b ! i ! j)"
proof -
  have "place_cells b (footprint c) (car_name c) = Inr b'"
    using assms(3) by (cases "car_direction c") (simp_all add: place_car_footprint)
  with assms(1,2) show ?thesis using assms(4,5) by (rule place_cells_content)
qed

lemma place_cars_append:
  "place_cars b (xs @ ys) =
     (case place_cars b xs of Inl e \<Rightarrow> Inl e | Inr b1 \<Rightarrow> place_cars b1 ys)"
  by (induction xs arbitrary: b) (auto split: sum.splits)

lemma place_cars_ok_iff:
  "shape b \<Longrightarrow> (\<exists>b'. place_cars b cars = Inr b') \<longleftrightarrow> (\<forall>c \<in> set cars. placeable c)"
proof (induction cars arbitrary: b)
  case Nil
  then show ?case by simp
next
  case (Cons c cars)
  show ?case
  proof (cases "place_car b c")
    case (Inl e)
    then have "\<not> placeable c" using place_car_ok_iff [OF Cons.prems, of c] by auto
    then show ?thesis using Inl by simp
  next
    case (Inr b1)
    then have pc: "placeable c" using place_car_ok_iff [OF Cons.prems, of c] by auto
    have "shape b1" using Cons.prems Inr by (rule place_car_shape)
    from Cons.IH [OF this] show ?thesis using Inr pc by simp
  qed
qed

lemma place_cars_shape: "shape b \<Longrightarrow> place_cars b cars = Inr b' \<Longrightarrow> shape b'"
proof (induction cars arbitrary: b)
  case Nil
  then show ?case by simp
next
  case (Cons c cars)
  from Cons.prems(2) obtain b1 where b1: "place_car b c = Inr b1"
    and rest: "place_cars b1 cars = Inr b'"
    by (auto split: sum.splits)
  have "shape b1" using Cons.prems(1) b1 by (rule place_car_shape)
  then show ?case using rest by (rule Cons.IH)
qed

lemma place_cars_untouched:
  "shape b \<Longrightarrow> \<forall>c \<in> set cars. \<forall>p \<in> set (footprint c). in_grid p \<Longrightarrow>
   place_cars b cars = Inr b' \<Longrightarrow> i < 6 \<Longrightarrow> j < 6 \<Longrightarrow>
   \<forall>c \<in> set cars. (int i, int j) \<notin> set (footprint c) \<Longrightarrow> b' ! i ! j = b ! i ! j"
proof (induction cars arbitrary: b)
  case Nil
  then show ?case by simp
next
  case (Cons c cars)
  from Cons.prems(3) obtain b1 where b1: "place_car b c = Inr b1"
    and rest: "place_cars b1 cars = Inr b'"
    by (auto split: sum.splits)
  have sh1: "shape b1" using Cons.prems(1) b1 by (rule place_car_shape)
  have "b1 ! i ! j = b ! i ! j"
    using place_car_content [OF Cons.prems(1) _ b1 Cons.prems(4,5)] Cons.prems(2,6) by simp
  moreover have "b' ! i ! j = b1 ! i ! j"
    using Cons.IH [OF sh1 _ rest Cons.prems(4,5)] Cons.prems(2,6) by simp
  ultimately show ?case by simp
qed

lemma place_cars_latest:
  assumes "shape b" and "\<forall>c \<in> set (xs @ c0 # ys). \<forall>p \<in> set (footprint c). in_grid p"
    and "place_cars b (xs @ c0 # ys) = Inr b'" and "i < 6" and "j < 6"
    and "(int i, int j) \<in> set (footprint c0)"
    and "\<forall>c \<in> set ys. (int i, int j) \<notin> set (footprint c)"
  shows "b' ! i ! j = car_name c0"
proof -
  from assms(3) obtain b1 b2 where b1: "place_cars b xs = Inr b1"
    and b2: "place_car b1 c0 = Inr b2" and b3: "place_cars b2 ys = Inr b'"
    by (auto simp: place_cars_append split: sum.splits)
  have sh1: "shape b1" using assms(1) b1 by (rule place_cars_shape)
  have sh2: "shape b2" using sh1 b2 by (rule place_car_shape)
  have "b2 ! i ! j = car_name c0"
    using place_car_content [OF sh1 _ b2 assms(4,5)] assms(2,6) by simp
  moreover have "b' ! i ! j = b2 ! i ! j"
    using place_cars_untouched [OF sh2 _ b3 assms(4,5)] assms(2,7) by auto
  ultimately show ?thesis by simp
qed

lemma get_board_ok_iff:
  "(\<exists>b. get_board cars = Inr b) \<longleftrightarrow> (\<forall>c \<in> set cars. placeable c)"
  unfolding get_board_def using shape_empty_board by (rule place_cars_ok_iff)

lemma get_board_shape: "get_board cars = Inr b \<Longrightarrow> shape b"
  unfolding get_board_def using shape_empty_board by (rule place_cars_shape)

lemma empty_board_cell: "i < 6 \<Longrightarrow> j < 6 \<Longrightarrow> empty_board ! i ! j = EMPTY_CELL"
  by (simp add: empty_board_def BOARD_SIZE_def)

subsection \<open>What the generator can yield\<close>

lemma update_cars_tuple_nat:
  "i < length cars \<Longrightarrow> update_cars_tuple cars (int i) c' = Inr (cars[i := c'])"
  by (simp add: update_cars_tuple_def setitem_def norm_index_nonneg)

lemma try_move_simps:
  "try_move (Inl e) cars i c' = ([], Some e)"
  "try_move (Inr False) cars i c' = ([], None)"
  "k < length cars \<Longrightarrow> try_move (Inr True) cars (int k) c' = ([cars[k := c']], None)"
  by (simp_all add: try_move_def update_cars_tuple_nat)

lemma try_move_sound:
  "k < length cars \<Longrightarrow> s \<in> set (fst (try_move cond cars (int k) c')) \<Longrightarrow>
   cond = Inr True \<and> s = cars[k := c']"
  by (auto simp: try_move_def update_cars_tuple_nat split: sum.splits if_splits)

lemma gen_then_fst_subset: "set (fst (gen_then g h)) \<subseteq> set (fst g) \<union> set (fst h)"
  by (auto simp: gen_then_def split: prod.splits option.splits)

lemma gen_then_None: "snd g = None \<Longrightarrow> gen_then g h = (fst g @ fst h, snd h)"
  by (cases g) (simp add: gen_then_def)

lemma car_rebuild:
  "\<lparr>car_name = car_name c, car_x = car_x c, car_y = v, car_size = car_size c,
    car_direction = car_direction c\<rparr> = c\<lparr>car_y := v\<rparr>"
  "\<lparr>car_name = car_name c, car_x = w, car_y = car_y c, car_size = car_size c,
    car_direction = car_direction c\<rparr> = c\<lparr>car_x := w\<rparr>"
  by simp_all

lemma car_moves_alt:
  "car_moves b cars i c =
     (case car_direction c of
        HORIZONTAL \<Rightarrow>
          gen_then
            (try_move
               (if car_y c + car_size c < BOARD_SIZE
                then cell_is_empty b (car_x c) (car_y c + car_size c) else Inr False)
               cars (int i) (c\<lparr>car_y := car_y c + 1\<rparr>))
            (try_move
               (if car_y c > 0 then cell_is_empty b (car_x c) (car_y c - 1) else Inr False)
               cars (int i) (c\<lparr>car_y := car_y c - 1\<rparr>))
      | VERTICAL \<Rightarrow>
          gen_then
            (try_move
               (if car_x c + car_size c < BOARD_SIZE
                then cell_is_empty b (car_x c + car_size c) (car_y c) else Inr False)
               cars (int i) (c\<lparr>car_x := car_x c + 1\<rparr>))
            (try_move
               (if car_x c > 0 then cell_is_empty b (car_x c - 1) (car_y c) else Inr False)
               cars (int i) (c\<lparr>car_x := car_x c - 1\<rparr>))
      | Other k \<Rightarrow> ([], Some ValueError))"
  by (simp only: car_moves_def car_rebuild)

lemma car_moves_sound:
  assumes "k < length cars" and "s \<in> set (fst (car_moves b cars k c))"
  shows "\<exists>c' \<in> set (slides b c). s = cars[k := c']"
proof (cases "car_direction c")
  case HORIZONTAL
  let ?g1 = "try_move
               (if car_y c + car_size c < BOARD_SIZE
                then cell_is_empty b (car_x c) (car_y c + car_size c) else Inr False)
               cars (int k) (c\<lparr>car_y := car_y c + 1\<rparr>)"
  let ?g2 = "try_move
               (if car_y c > 0 then cell_is_empty b (car_x c) (car_y c - 1) else Inr False)
               cars (int k) (c\<lparr>car_y := car_y c - 1\<rparr>)"
  have "car_moves b cars k c = gen_then ?g1 ?g2"
    using HORIZONTAL by (simp only: car_moves_alt direction.case)
  then have "s \<in> set (fst ?g1) \<or> s \<in> set (fst ?g2)"
    using assms(2) gen_then_fst_subset [of ?g1 ?g2] by auto
  then show ?thesis
  proof
    assume "s \<in> set (fst ?g1)"
    from try_move_sound [OF assms(1) this] show ?thesis
      using HORIZONTAL by (auto simp: slides_def split: if_splits)
  next
    assume "s \<in> set (fst ?g2)"
    from try_move_sound [OF assms(1) this] show ?thesis
      using HORIZONTAL by (auto simp: slides_def split: if_splits)
  qed
next
  case VERTICAL
  let ?g1 = "try_move
               (if car_x c + car_size c < BOARD_SIZE
                then cell_is_empty b (car_x c + car_size c) (car_y c) else Inr False)
               cars (int k) (c\<lparr>car_x := car_x c + 1\<rparr>)"
  let ?g2 = "try_move
               (if car_x c > 0 then cell_is_empty b (car_x c - 1) (car_y c) else Inr False)
               cars (int k) (c\<lparr>car_x := car_x c - 1\<rparr>)"
  have "car_moves b cars k c = gen_then ?g1 ?g2"
    using VERTICAL by (simp only: car_moves_alt direction.case)
  then have "s \<in> set (fst ?g1) \<or> s \<in> set (fst ?g2)"
    using assms(2) gen_then_fst_subset [of ?g1 ?g2] by auto
  then show ?thesis
  proof
    assume "s \<in> set (fst ?g1)"
    from try_move_sound [OF assms(1) this] show ?thesis
      using VERTICAL by (auto simp: slides_def split: if_splits)
  next
    assume "s \<in> set (fst ?g2)"
    from try_move_sound [OF assms(1) this] show ?thesis
      using VERTICAL by (auto simp: slides_def split: if_splits)
  qed
next
  case (Other n)
  then show ?thesis using assms(2) by (simp add: car_moves_def)
qed

lemma gen_concat_sound: "s \<in> set (fst (gen_concat gs)) \<Longrightarrow> \<exists>g \<in> set gs. s \<in> set (fst g)"
proof (induction gs)
  case Nil
  then show ?case by simp
next
  case (Cons g gs)
  then show ?case using gen_then_fst_subset [of g "gen_concat gs"] by auto
qed

lemma gen_concat_None:
  "\<forall>g \<in> set gs. snd g = None \<Longrightarrow> gen_concat gs = (concat (map fst gs), None)"
  by (induction gs) (simp_all add: gen_then_None)

lemma possible_moves_sound:
  assumes "s \<in> set (fst (possible_moves cars))"
  shows "\<exists>b k. get_board cars = Inr b \<and> k < length cars \<and>
           (\<exists>c' \<in> set (slides b (cars ! k)). s = cars[k := c'])"
proof -
  from assms obtain b where b: "get_board cars = Inr b"
    and s: "s \<in> set (fst (gen_concat (map (\<lambda>(i, c). car_moves b cars i c) (enumerate 0 cars))))"
    by (auto simp: possible_moves_def split: sum.splits)
  from gen_concat_sound [OF s] obtain k c where kc: "(k, c) \<in> set (enumerate 0 cars)"
    and sk: "s \<in> set (fst (car_moves b cars k c))"
    by auto
  from kc have k: "k < length cars" and c: "c = cars ! k"
    by (auto simp: in_set_enumerate_eq)
  from car_moves_sound [OF k sk] show ?thesis using b k c by blast
qed

subsection \<open>Footprints and bounds\<close>

lemma set_py_range: "set (py_range n) = {i. 0 \<le> i \<and> i < n}"
proof -
  have "set (py_range n) = int ` {0..<nat n}" by (simp add: py_range_def)
  also have "\<dots> = {i. 0 \<le> i \<and> i < n}"
  proof (rule set_eqI)
    fix i show "i \<in> int ` {0..<nat n} \<longleftrightarrow> i \<in> {i. 0 \<le> i \<and> i < n}"
    proof
      assume "i \<in> int ` {0..<nat n}" then show "i \<in> {i. 0 \<le> i \<and> i < n}" by auto
    next
      assume "i \<in> {i. 0 \<le> i \<and> i < n}"
      then have "i = int (nat i)" and "nat i \<in> {0..<nat n}" by auto
      then show "i \<in> int ` {0..<nat n}" by (rule image_eqI)
    qed
  qed
  finally show ?thesis .
qed

lemma footprint_H:
  "car_direction c = HORIZONTAL \<Longrightarrow>
   p \<in> set (footprint c) \<longleftrightarrow> fst p = car_x c \<and> car_y c \<le> snd p \<and> snd p < car_y c + car_size c"
proof -
  assume "car_direction c = HORIZONTAL"
  then have "set (footprint c) = (\<lambda>i. (car_x c, car_y c + i)) ` {i. 0 \<le> i \<and> i < car_size c}"
    by (simp add: footprint_def set_py_range)
  moreover have "p \<in> (\<lambda>i. (car_x c, car_y c + i)) ` {i. 0 \<le> i \<and> i < car_size c} \<longleftrightarrow>
      fst p = car_x c \<and> car_y c \<le> snd p \<and> snd p < car_y c + car_size c"
  proof
    assume "p \<in> (\<lambda>i. (car_x c, car_y c + i)) ` {i. 0 \<le> i \<and> i < car_size c}"
    then show "fst p = car_x c \<and> car_y c \<le> snd p \<and> snd p < car_y c + car_size c" by auto
  next
    assume a: "fst p = car_x c \<and> car_y c \<le> snd p \<and> snd p < car_y c + car_size c"
    then have "p = (car_x c, car_y c + (snd p - car_y c))" by (cases p) simp
    moreover have "snd p - car_y c \<in> {i. 0 \<le> i \<and> i < car_size c}" using a by simp
    ultimately show "p \<in> (\<lambda>i. (car_x c, car_y c + i)) ` {i. 0 \<le> i \<and> i < car_size c}"
      by (rule image_eqI)
  qed
  ultimately show ?thesis by simp
qed

lemma footprint_V:
  "car_direction c = VERTICAL \<Longrightarrow>
   p \<in> set (footprint c) \<longleftrightarrow> snd p = car_y c \<and> car_x c \<le> fst p \<and> fst p < car_x c + car_size c"
proof -
  assume "car_direction c = VERTICAL"
  then have "set (footprint c) = (\<lambda>i. (car_x c + i, car_y c)) ` {i. 0 \<le> i \<and> i < car_size c}"
    by (simp add: footprint_def set_py_range)
  moreover have "p \<in> (\<lambda>i. (car_x c + i, car_y c)) ` {i. 0 \<le> i \<and> i < car_size c} \<longleftrightarrow>
      snd p = car_y c \<and> car_x c \<le> fst p \<and> fst p < car_x c + car_size c"
  proof
    assume "p \<in> (\<lambda>i. (car_x c + i, car_y c)) ` {i. 0 \<le> i \<and> i < car_size c}"
    then show "snd p = car_y c \<and> car_x c \<le> fst p \<and> fst p < car_x c + car_size c" by auto
  next
    assume a: "snd p = car_y c \<and> car_x c \<le> fst p \<and> fst p < car_x c + car_size c"
    then have "p = (car_x c + (fst p - car_x c), car_y c)" by (cases p) simp
    moreover have "fst p - car_x c \<in> {i. 0 \<le> i \<and> i < car_size c}" using a by simp
    ultimately show "p \<in> (\<lambda>i. (car_x c + i, car_y c)) ` {i. 0 \<le> i \<and> i < car_size c}"
      by (rule image_eqI)
  qed
  ultimately show ?thesis by simp
qed

lemma footprint_Other: "car_direction c = Other k \<Longrightarrow> footprint c = []"
  by (simp add: footprint_def)

lemma in_bounds_car_H:
  assumes "car_direction c = HORIZONTAL"
  shows "in_bounds_car c \<longleftrightarrow>
    1 \<le> car_size c \<and> 0 \<le> car_x c \<and> car_x c < 6 \<and> 0 \<le> car_y c \<and> car_y c + car_size c \<le> 6"
proof
  assume ib: "in_bounds_car c"
  then have sz: "1 \<le> car_size c" by (simp add: in_bounds_car_def)
  have "(car_x c, car_y c) \<in> set (footprint c)"
    and "(car_x c, car_y c + car_size c - 1) \<in> set (footprint c)"
    using sz by (simp_all add: footprint_H [OF assms])
  then have "in_grid (car_x c, car_y c)" and "in_grid (car_x c, car_y c + car_size c - 1)"
    using ib by (auto simp: in_bounds_car_def)
  then show "1 \<le> car_size c \<and> 0 \<le> car_x c \<and> car_x c < 6 \<and> 0 \<le> car_y c \<and> car_y c + car_size c \<le> 6"
    using sz by (simp add: in_grid_def BOARD_SIZE_def)
next
  assume a: "1 \<le> car_size c \<and> 0 \<le> car_x c \<and> car_x c < 6 \<and> 0 \<le> car_y c \<and> car_y c + car_size c \<le> 6"
  have "\<forall>p \<in> set (footprint c). in_grid p"
    using a by (auto simp: footprint_H [OF assms] in_grid_def BOARD_SIZE_def)
  then show "in_bounds_car c" using a assms by (simp add: in_bounds_car_def)
qed

lemma in_bounds_car_V:
  assumes "car_direction c = VERTICAL"
  shows "in_bounds_car c \<longleftrightarrow>
    1 \<le> car_size c \<and> 0 \<le> car_y c \<and> car_y c < 6 \<and> 0 \<le> car_x c \<and> car_x c + car_size c \<le> 6"
proof
  assume ib: "in_bounds_car c"
  then have sz: "1 \<le> car_size c" by (simp add: in_bounds_car_def)
  have "(car_x c, car_y c) \<in> set (footprint c)"
    and "(car_x c + car_size c - 1, car_y c) \<in> set (footprint c)"
    using sz by (simp_all add: footprint_V [OF assms])
  then have "in_grid (car_x c, car_y c)" and "in_grid (car_x c + car_size c - 1, car_y c)"
    using ib by (auto simp: in_bounds_car_def)
  then show "1 \<le> car_size c \<and> 0 \<le> car_y c \<and> car_y c < 6 \<and> 0 \<le> car_x c \<and> car_x c + car_size c \<le> 6"
    using sz by (simp add: in_grid_def BOARD_SIZE_def)
next
  assume a: "1 \<le> car_size c \<and> 0 \<le> car_y c \<and> car_y c < 6 \<and> 0 \<le> car_x c \<and> car_x c + car_size c \<le> 6"
  have "\<forall>p \<in> set (footprint c). in_grid p"
    using a by (auto simp: footprint_V [OF assms] in_grid_def BOARD_SIZE_def)
  then show "in_bounds_car c" using a assms by (simp add: in_bounds_car_def)
qed

lemma cell_is_empty_in_grid:
  assumes "shape b" and "in_grid (r, c)"
  shows "cell_is_empty b r c = Inr (b ! nat r ! nat c = EMPTY_CELL)"
proof -
  have len: "length b = 6" using assms by (simp add: shape_def)
  have r: "0 \<le> r" "r < 6" and c: "0 \<le> c" "c < 6"
    using assms(2) by (simp_all add: in_grid_def BOARD_SIZE_def)
  have row: "length (b ! nat r) = 6" using assms(1) r by (intro shape_row) auto
  show ?thesis using len r c row
    by (simp add: cell_is_empty_def getitem_def norm_index_nonneg)
qed

subsection \<open>The generator on states in bounds\<close>

lemma try_move_Inr:
  "k < length cars \<Longrightarrow>
   try_move (Inr t) cars (int k) c' = ((if t then [cars[k := c']] else []), None)"
  by (simp add: try_move_def update_cars_tuple_nat)

lemma gen_then_pure: "gen_then (xs, None) (ys, None) = (xs @ ys, None)"
  by (simp add: gen_then_def)

lemma car_moves_exact:
  assumes k: "k < length cars" and sh: "shape b" and ib: "in_bounds_car c"
  shows "car_moves b cars k c = (map (\<lambda>c'. cars[k := c']) (slides b c), None)"
proof -
  have dir: "car_direction c = HORIZONTAL \<or> car_direction c = VERTICAL"
    using ib by (simp add: in_bounds_car_def)
  then show ?thesis
  proof
    assume H: "car_direction c = HORIZONTAL"
    have bd: "1 \<le> car_size c" "0 \<le> car_x c" "car_x c < 6" "0 \<le> car_y c" "car_y c + car_size c \<le> 6"
      using ib in_bounds_car_H [OF H] by simp_all
    define t1 where "t1 = (car_y c + car_size c < BOARD_SIZE \<and>
       cell_is_empty b (car_x c) (car_y c + car_size c) = Inr True)"
    define t2 where "t2 = (car_y c > 0 \<and> cell_is_empty b (car_x c) (car_y c - 1) = Inr True)"
    have c1: "(if car_y c + car_size c < BOARD_SIZE
                then cell_is_empty b (car_x c) (car_y c + car_size c) else Inr False) = Inr t1"
    proof (cases "car_y c + car_size c < BOARD_SIZE")
      case True
      then have "in_grid (car_x c, car_y c + car_size c)"
        using bd by (simp add: in_grid_def BOARD_SIZE_def)
      from cell_is_empty_in_grid [OF sh this] show ?thesis using True by (auto simp: t1_def)
    next
      case False
      then show ?thesis by (simp add: t1_def)
    qed
    have c2: "(if car_y c > 0 then cell_is_empty b (car_x c) (car_y c - 1) else Inr False) = Inr t2"
    proof (cases "car_y c > 0")
      case True
      then have "in_grid (car_x c, car_y c - 1)"
        using bd by (simp add: in_grid_def BOARD_SIZE_def)
      from cell_is_empty_in_grid [OF sh this] show ?thesis using True by (auto simp: t2_def)
    next
      case False
      then show ?thesis by (simp add: t2_def)
    qed
    have "car_moves b cars k c =
        gen_then (try_move (Inr t1) cars (int k) (c\<lparr>car_y := car_y c + 1\<rparr>))
                 (try_move (Inr t2) cars (int k) (c\<lparr>car_y := car_y c - 1\<rparr>))"
      using H by (simp only: car_moves_alt direction.case c1 c2)
    also have "\<dots> = ((if t1 then [cars[k := c\<lparr>car_y := car_y c + 1\<rparr>]] else []) @
                     (if t2 then [cars[k := c\<lparr>car_y := car_y c - 1\<rparr>]] else []), None)"
      by (simp only: try_move_Inr [OF k] gen_then_pure)
    also have "\<dots> = (map (\<lambda>c'. cars[k := c']) (slides b c), None)"
      using H by (simp add: slides_def t1_def t2_def)
    finally show ?thesis .
  next
    assume V: "car_direction c = VERTICAL"
    have bd: "1 \<le> car_size c" "0 \<le> car_y c" "car_y c < 6" "0 \<le> car_x c" "car_x c + car_size c \<le> 6"
      using ib in_bounds_car_V [OF V] by simp_all
    define t1 where "t1 = (car_x c + car_size c < BOARD_SIZE \<and>
       cell_is_empty b (car_x c + car_size c) (car_y c) = Inr True)"
    define t2 where "t2 = (car_x c > 0 \<and> cell_is_empty b (car_x c - 1) (car_y c) = Inr True)"
    have c1: "(if car_x c + car_size c < BOARD_SIZE
                then cell_is_empty b (car_x c + car_size c) (car_y c) else Inr False) = Inr t1"
    proof (cases "car_x c + car_size c < BOARD_SIZE")
      case True
      then have "in_grid (car_x c + car_size c, car_y c)"
        using bd by (simp add: in_grid_def BOARD_SIZE_def)
      from cell_is_empty_in_grid [OF sh this] show ?thesis using True by (auto simp: t1_def)
    next
      case False
      then show ?thesis by (simp add: t1_def)
    qed
    have c2: "(if car_x c > 0 then cell_is_empty b (car_x c - 1) (car_y c) else Inr False) = Inr t2"
    proof (cases "car_x c > 0")
      case True
      then have "in_grid (car_x c - 1, car_y c)"
        using bd by (simp add: in_grid_def BOARD_SIZE_def)
      from cell_is_empty_in_grid [OF sh this] show ?thesis using True by (auto simp: t2_def)
    next
      case False
      then show ?thesis by (simp add: t2_def)
    qed
    have "car_moves b cars k c =
        gen_then (try_move (Inr t1) cars (int k) (c\<lparr>car_x := car_x c + 1\<rparr>))
                 (try_move (Inr t2) cars (int k) (c\<lparr>car_x := car_x c - 1\<rparr>))"
      using V by (simp only: car_moves_alt direction.case c1 c2)
    also have "\<dots> = ((if t1 then [cars[k := c\<lparr>car_x := car_x c + 1\<rparr>]] else []) @
                     (if t2 then [cars[k := c\<lparr>car_x := car_x c - 1\<rparr>]] else []), None)"
      by (simp only: try_move_Inr [OF k] gen_then_pure)
    also have "\<dots> = (map (\<lambda>c'. cars[k := c']) (slides b c), None)"
      using V by (simp add: slides_def t1_def t2_def)
    finally show ?thesis .
  qed
qed

lemma in_bounds_car_placeable: "in_bounds_car c \<Longrightarrow> placeable c"
  by (auto simp: in_bounds_car_def placeable_def dest: in_grid_writable)

lemma in_bounds_get_board:
  assumes "in_bounds cars"
  shows "\<exists>b. get_board cars = Inr b \<and> shape b"
proof -
  have "\<forall>c \<in> set cars. placeable c"
    using assms by (auto simp: in_bounds_def dest: in_bounds_car_placeable)
  then obtain b where "get_board cars = Inr b" using get_board_ok_iff [of cars] by auto
  then show ?thesis using get_board_shape by blast
qed

lemma possible_moves_exact:
  assumes ib: "in_bounds cars" and b: "get_board cars = Inr b"
  shows "possible_moves cars =
    (concat (map (\<lambda>(k, c). map (\<lambda>c'. cars[k := c']) (slides b c)) (enumerate 0 cars)), None)"
proof -
  have sh: "shape b" using b by (rule get_board_shape)
  have each: "car_moves b cars k c = (map (\<lambda>c'. cars[k := c']) (slides b c), None)"
    if "(k, c) \<in> set (enumerate 0 cars)" for k c
  proof -
    from that have k: "k < length cars" and c: "c = cars ! k"
      by (auto simp: in_set_enumerate_eq)
    then have "in_bounds_car c" using ib by (simp add: in_bounds_def)
    with k sh show ?thesis by (rule car_moves_exact)
  qed
  have m: "map (\<lambda>(i, c). car_moves b cars i c) (enumerate 0 cars) =
           map (\<lambda>(k, c). (map (\<lambda>c'. cars[k := c']) (slides b c), None)) (enumerate 0 cars)"
    by (rule map_cong) (auto simp: each)
  have g: "gen_concat (map (\<lambda>(k, c). (map (\<lambda>c'. cars[k := c']) (slides b c), None :: error option))
          (enumerate 0 cars)) =
        (concat (map fst (map (\<lambda>(k, c). (map (\<lambda>c'. cars[k := c']) (slides b c), None :: error option))
          (enumerate 0 cars))), None)"
    by (rule gen_concat_None) auto
  have f: "map fst (map (\<lambda>(k, c). (map (\<lambda>c'. cars[k := c']) (slides b c), None :: error option))
          (enumerate 0 cars)) = map (\<lambda>(k, c). map (\<lambda>c'. cars[k := c']) (slides b c)) (enumerate 0 cars)"
    by (simp add: case_prod_unfold comp_def)
  have "possible_moves cars = gen_concat (map (\<lambda>(i, c). car_moves b cars i c) (enumerate 0 cars))"
    using b by (simp add: possible_moves_def)
  also note m
  also note g
  also note f
  finally show ?thesis .
qed

subsection \<open>What the board shows\<close>

lemma get_board_uncovered:
  assumes "get_board cars = Inr b" and "\<forall>c \<in> set cars. \<forall>p \<in> set (footprint c). in_grid p"
    and "i < 6" and "j < 6" and "\<forall>c \<in> set cars. (int i, int j) \<notin> set (footprint c)"
  shows "b ! i ! j = EMPTY_CELL"
proof -
  have "b ! i ! j = empty_board ! i ! j"
    using shape_empty_board assms(2) assms(1) [unfolded get_board_def] assms(3,4,5)
    by (rule place_cars_untouched)
  then show ?thesis using assms(3,4) by (simp add: empty_board_cell)
qed

lemma get_board_latest:
  assumes "get_board cars = Inr b" and "\<forall>c \<in> set cars. \<forall>p \<in> set (footprint c). in_grid p"
    and "i < 6" and "j < 6" and "k < length cars"
    and "(int i, int j) \<in> set (footprint (cars ! k))"
    and "\<forall>m. k < m \<and> m < length cars \<longrightarrow> (int i, int j) \<notin> set (footprint (cars ! m))"
  shows "b ! i ! j = car_name (cars ! k)"
proof -
  have split: "cars = take k cars @ cars ! k # drop (Suc k) cars"
    using assms(5) by (rule id_take_nth_drop)
  have later: "\<forall>c \<in> set (drop (Suc k) cars). (int i, int j) \<notin> set (footprint c)"
  proof
    fix c assume "c \<in> set (drop (Suc k) cars)"
    then obtain n where n: "n < length cars - Suc k" and c: "c = cars ! (Suc k + n)"
      by (auto simp: in_set_conv_nth)
    have "k < Suc k + n \<and> Suc k + n < length cars" using n by auto
    then show "(int i, int j) \<notin> set (footprint c)" using assms(7) c by blast
  qed
  have g: "\<forall>c \<in> set (take k cars @ cars ! k # drop (Suc k) cars). \<forall>p \<in> set (footprint c). in_grid p"
    using assms(2) split by simp
  have pc: "place_cars empty_board (take k cars @ cars ! k # drop (Suc k) cars) = Inr b"
    using assms(1) split by (simp add: get_board_def)
  from place_cars_latest [OF shape_empty_board g pc assms(3,4,6) later] show ?thesis .
qed

lemma get_board_covered_name:
  assumes "get_board cars = Inr b" and "\<forall>c \<in> set cars. \<forall>p \<in> set (footprint c). in_grid p"
    and "i < 6" and "j < 6" and "\<exists>c \<in> set cars. (int i, int j) \<in> set (footprint c)"
  shows "\<exists>c \<in> set cars. (int i, int j) \<in> set (footprint c) \<and> b ! i ! j = car_name c"
proof -
  from assms(5) obtain xs c0 ys where split: "cars = xs @ c0 # ys"
    and c0: "(int i, int j) \<in> set (footprint c0)"
    and ys: "\<forall>c \<in> set ys. (int i, int j) \<notin> set (footprint c)"
    using split_list_last_prop [of cars "\<lambda>c. (int i, int j) \<in> set (footprint c)"] by blast
  have g: "\<forall>c \<in> set (xs @ c0 # ys). \<forall>p \<in> set (footprint c). in_grid p"
    using assms(2) split by simp
  have pc: "place_cars empty_board (xs @ c0 # ys) = Inr b"
    using assms(1) split by (simp add: get_board_def)
  from place_cars_latest [OF shape_empty_board g pc assms(3,4) c0 ys]
  have "b ! i ! j = car_name c0" .
  then show ?thesis using c0 split by auto
qed

lemma get_board_empty_iff:
  assumes "get_board cars = Inr b" and "\<forall>c \<in> set cars. \<forall>p \<in> set (footprint c). in_grid p"
    and "\<forall>c \<in> set cars. car_name c \<noteq> EMPTY_CELL" and "i < 6" and "j < 6"
  shows "b ! i ! j = EMPTY_CELL \<longleftrightarrow> (\<forall>c \<in> set cars. (int i, int j) \<notin> set (footprint c))"
proof
  assume e: "b ! i ! j = EMPTY_CELL"
  show "\<forall>c \<in> set cars. (int i, int j) \<notin> set (footprint c)"
  proof (rule ccontr)
    assume "\<not> (\<forall>c \<in> set cars. (int i, int j) \<notin> set (footprint c))"
    then have "\<exists>c \<in> set cars. (int i, int j) \<in> set (footprint c)" by simp
    from get_board_covered_name [OF assms(1,2,4,5) this]
    obtain c where "c \<in> set cars" and "b ! i ! j = car_name c" by blast
    then show False using e assms(3) by auto
  qed
next
  assume "\<forall>c \<in> set cars. (int i, int j) \<notin> set (footprint c)"
  with assms(1,2,4,5) show "b ! i ! j = EMPTY_CELL" by (rule get_board_uncovered)
qed

lemma place_car_err_kind:
  assumes "shape b" and "place_car b c = Inl e"
  shows "(e = ValueError \<and> car_direction c \<noteq> HORIZONTAL \<and> car_direction c \<noteq> VERTICAL) \<or>
         (e = IndexError \<and> (\<exists>p \<in> set (footprint c). \<not> writable p))"
proof (cases "car_direction c = HORIZONTAL \<or> car_direction c = VERTICAL")
  case True
  then have "place_cells b (footprint c) (car_name c) = Inl e"
    using assms(2) by (auto simp: place_car_footprint)
  then have e: "e = IndexError" by (rule place_cells_err)
  have "\<not> placeable c" using assms(2) place_car_ok_iff [OF assms(1), of c] by auto
  then have "\<exists>p \<in> set (footprint c). \<not> writable p" using True by (simp add: placeable_def)
  then show ?thesis using e by simp
next
  case False
  then obtain n where "car_direction c = Other n" by (cases "car_direction c") auto
  then show ?thesis using assms(2) by (simp add: place_car_footprint)
qed

lemma place_cars_err_kind:
  "shape b \<Longrightarrow> place_cars b cars = Inl e \<Longrightarrow>
   (e = ValueError \<and> (\<exists>c \<in> set cars. car_direction c \<noteq> HORIZONTAL \<and> car_direction c \<noteq> VERTICAL)) \<or>
   (e = IndexError \<and> (\<exists>c \<in> set cars. \<exists>p \<in> set (footprint c). \<not> writable p))"
proof (induction cars arbitrary: b)
  case Nil
  then show ?case by simp
next
  case (Cons c cars)
  show ?case
  proof (cases "place_car b c")
    case (Inl e')
    then have "place_car b c = Inl e" using Cons.prems(2) by simp
    from place_car_err_kind [OF Cons.prems(1) this] show ?thesis by auto
  next
    case (Inr b1)
    then have rest: "place_cars b1 cars = Inl e" using Cons.prems(2) by simp
    have "shape b1" using Cons.prems(1) Inr by (rule place_car_shape)
    from Cons.IH [OF this rest] show ?thesis by auto
  qed
qed

subsection \<open>Layout of the successors\<close>

lemma footprint_overlap_example:
  "footprint (overlap_example ! 0) = [(0, 0), (0, 1)]"
  "footprint (overlap_example ! Suc 0) = [(0, 1), (0, 2)]"
  by (simp_all add: overlap_example_def footprint_def py_range_def upt_rec)

lemma slides_keep:
  "c' \<in> set (slides b c) \<Longrightarrow>
   car_name c' = car_name c \<and> car_size c' = car_size c \<and> car_direction c' = car_direction c"
  by (cases "car_direction c") (auto simp: slides_def split: if_splits)

lemma same_layout_refl: "same_layout s s"
  by (simp add: same_layout_def)

lemma same_layout_trans: "same_layout s t \<Longrightarrow> same_layout t u \<Longrightarrow> same_layout s u"
  by (simp add: same_layout_def)

lemma possible_moves_layout:
  assumes "t \<in> set (fst (possible_moves s))"
  shows "same_layout s t"
proof -
  from possible_moves_sound [OF assms] obtain b k c' where k: "k < length s"
    and c': "c' \<in> set (slides b (s ! k))" and t: "t = s[k := c']"
    by blast
  from slides_keep [OF c'] show ?thesis
    unfolding same_layout_def t using k by (auto simp: nth_list_update)
qed

lemma reachable_layout: "(s0, u) \<in> move_rel\<^sup>* \<Longrightarrow> same_layout s0 u"
proof (induction rule: rtrancl_induct)
  case base
  show ?case by (rule same_layout_refl)
next
  case (step t u)
  from step.hyps(2) have "same_layout t u"
    by (simp add: move_rel_def possible_moves_layout)
  with step.IH show ?case by (rule same_layout_trans)
qed

lemma two_cars_moves:
  "possible_moves two_cars =
    ([[\<lparr>car_name = ''r'', car_x = 2, car_y = 4, car_size = 2, car_direction = HORIZONTAL\<rparr>,
       \<lparr>car_name = ''b'', car_x = 3, car_y = 5, car_size = 2, car_direction = VERTICAL\<rparr>],
      [\<lparr>car_name = ''r'', car_x = 2, car_y = 2, car_size = 2, car_direction = HORIZONTAL\<rparr>,
       \<lparr>car_name = ''b'', car_x = 3, car_y = 5, car_size = 2, car_direction = VERTICAL\<rparr>],
      [\<lparr>car_name = ''r'', car_x = 2, car_y = 3, car_size = 2, car_direction = HORIZONTAL\<rparr>,
       \<lparr>car_name = ''b'', car_x = 4, car_y = 5, car_size = 2, car_direction = VERTICAL\<rparr>],
      [\<lparr>car_name = ''r'', car_x = 2, car_y = 3, car_size = 2, car_direction = HORIZONTAL\<rparr>,
       \<lparr>car_name = ''b'', car_x = 2, car_y = 5, car_size = 2, car_direction = VERTICAL\<rparr>]], None)"
  by code_simp

subsection \<open>Legal slides\<close>

lemma print_moves_nonempty: "print_moves h @ l \<noteq> []"
  by (simp add: print_moves_def)

lemma slides_H:
  assumes "shape b" and "in_bounds_car c" and "car_direction c = HORIZONTAL"
  shows "c' \<in> set (slides b c) \<longleftrightarrow>
    (car_y c + car_size c < 6 \<and> b ! nat (car_x c) ! nat (car_y c + car_size c) = EMPTY_CELL \<and>
       c' = c\<lparr>car_y := car_y c + 1\<rparr>) \<or>
    (car_y c > 0 \<and> b ! nat (car_x c) ! nat (car_y c - 1) = EMPTY_CELL \<and>
       c' = c\<lparr>car_y := car_y c - 1\<rparr>)"
proof -
  have bd: "1 \<le> car_size c" "0 \<le> car_x c" "car_x c < 6" "0 \<le> car_y c" "car_y c + car_size c \<le> 6"
    using assms(2) in_bounds_car_H [OF assms(3)] by simp_all
  have r: "cell_is_empty b (car_x c) (car_y c + car_size c) =
           Inr (b ! nat (car_x c) ! nat (car_y c + car_size c) = EMPTY_CELL)"
    if "car_y c + car_size c < 6"
    using assms(1) by (rule cell_is_empty_in_grid) (use bd that in \<open>simp add: in_grid_def BOARD_SIZE_def\<close>)
  have l: "cell_is_empty b (car_x c) (car_y c - 1) =
           Inr (b ! nat (car_x c) ! nat (car_y c - 1) = EMPTY_CELL)"
    if "car_y c > 0"
    using assms(1) by (rule cell_is_empty_in_grid) (use bd that in \<open>simp add: in_grid_def BOARD_SIZE_def\<close>)
  show ?thesis using assms(3) r l by (auto simp: slides_def BOARD_SIZE_def)
qed

lemma slides_V:
  assumes "shape b" and "in_bounds_car c" and "car_direction c = VERTICAL"
  shows "c' \<in> set (slides b c) \<longleftrightarrow>
    (car_x c + car_size c < 6 \<and> b ! nat (car_x c + car_size c) ! nat (car_y c) = EMPTY_CELL \<and>
       c' = c\<lparr>car_x := car_x c + 1\<rparr>) \<or>
    (car_x c > 0 \<and> b ! nat (car_x c - 1) ! nat (car_y c) = EMPTY_CELL \<and>
       c' = c\<lparr>car_x := car_x c - 1\<rparr>)"
proof -
  have bd: "1 \<le> car_size c" "0 \<le> car_y c" "car_y c < 6" "0 \<le> car_x c" "car_x c + car_size c \<le> 6"
    using assms(2) in_bounds_car_V [OF assms(3)] by simp_all
  have r: "cell_is_empty b (car_x c + car_size c) (car_y c) =
           Inr (b ! nat (car_x c + car_size c) ! nat (car_y c) = EMPTY_CELL)"
    if "car_x c + car_size c < 6"
    using assms(1) by (rule cell_is_empty_in_grid) (use bd that in \<open>simp add: in_grid_def BOARD_SIZE_def\<close>)
  have l: "cell_is_empty b (car_x c - 1) (car_y c) =
           Inr (b ! nat (car_x c - 1) ! nat (car_y c) = EMPTY_CELL)"
    if "car_x c > 0"
    using assms(1) by (rule cell_is_empty_in_grid) (use bd that in \<open>simp add: in_grid_def BOARD_SIZE_def\<close>)
  show ?thesis using assms(3) r l by (auto simp: slides_def BOARD_SIZE_def)
qed

lemma slides_legal:
  assumes "shape b" and "in_bounds_car c"
  shows "c' \<in> set (slides b c) \<longleftrightarrow>
    (car_direction c = HORIZONTAL \<and> car_y c + car_size c < 6 \<and>
       b ! nat (car_x c) ! nat (car_y c + car_size c) = EMPTY_CELL \<and>
       c' = c\<lparr>car_y := car_y c + 1\<rparr>) \<or>
    (car_direction c = HORIZONTAL \<and> car_y c > 0 \<and>
       b ! nat (car_x c) ! nat (car_y c - 1) = EMPTY_CELL \<and>
       c' = c\<lparr>car_y := car_y c - 1\<rparr>) \<or>
    (car_direction c = VERTICAL \<and> car_x c + car_size c < 6 \<and>
       b ! nat (car_x c + car_size c) ! nat (car_y c) = EMPTY_CELL \<and>
       c' = c\<lparr>car_x := car_x c + 1\<rparr>) \<or>
    (car_direction c = VERTICAL \<and> car_x c > 0 \<and>
       b ! nat (car_x c - 1) ! nat (car_y c) = EMPTY_CELL \<and>
       c' = c\<lparr>car_x := car_x c - 1\<rparr>)"
proof -
  have "car_direction c = HORIZONTAL \<or> car_direction c = VERTICAL"
    using assms(2) by (simp add: in_bounds_car_def)
  then show ?thesis
  proof
    assume H: "car_direction c = HORIZONTAL"
    show ?thesis unfolding slides_H [OF assms H] using H by simp
  next
    assume V: "car_direction c = VERTICAL"
    show ?thesis unfolding slides_V [OF assms V] using V by simp
  qed
qed

lemma possible_moves_member:
  assumes ib: "in_bounds cars" and b: "get_board cars = Inr b"
  shows "s \<in> set (fst (possible_moves cars)) \<longleftrightarrow>
         (\<exists>k < length cars. \<exists>c' \<in> set (slides b (cars ! k)). s = cars[k := c'])"
proof
  assume "s \<in> set (fst (possible_moves cars))"
  from possible_moves_sound [OF this] b
  show "\<exists>k < length cars. \<exists>c' \<in> set (slides b (cars ! k)). s = cars[k := c']" by auto
next
  assume "\<exists>k < length cars. \<exists>c' \<in> set (slides b (cars ! k)). s = cars[k := c']"
  then obtain k c' where k: "k < length cars" and c': "c' \<in> set (slides b (cars ! k))"
    and s: "s = cars[k := c']" by blast
  have "(k, cars ! k) \<in> set (enumerate 0 cars)" using k by (simp add: in_set_enumerate_eq)
  then show "s \<in> set (fst (possible_moves cars))"
    unfolding possible_moves_exact [OF ib b] using c' s by force
qed

subsection \<open>The move log\<close>

lemma car_steps_same: "car_steps c c = []"
  by (simp add: car_steps_def)

lemma pair_steps_same: "pair_steps s s = []"
  by (induction s) (simp_all add: pair_steps_def car_steps_same)

lemma pair_steps_Cons: "pair_steps (a # s) (b # t) = car_steps a b @ pair_steps s t"
  by (simp add: pair_steps_def)

lemma pair_steps_one_differs:
  "length t = length s \<Longrightarrow> k < length s \<Longrightarrow> \<forall>i < length s. i \<noteq> k \<longrightarrow> t ! i = s ! i \<Longrightarrow>
   pair_steps s t = car_steps (s ! k) (t ! k)"
proof (induction s t arbitrary: k rule: list_induct2')
  case (4 a s b t)
  show ?case
  proof (cases k)
    case 0
    have "t = s"
    proof (rule nth_equalityI)
      show "length t = length s" using "4.prems"(1) by simp
    next
      fix i assume "i < length t"
      then have "Suc i < length (a # s)" using "4.prems"(1) by simp
      moreover have "Suc i \<noteq> k" using 0 by simp
      ultimately have "(b # t) ! Suc i = (a # s) ! Suc i" using "4.prems"(3) by blast
      then show "t ! i = s ! i" by simp
    qed
    then show ?thesis using 0 by (simp add: pair_steps_Cons pair_steps_same)
  next
    case (Suc k')
    have "(b # t) ! 0 = (a # s) ! 0" using "4.prems"(3) Suc by (metis length_greater_0_conv list.distinct(1) nat.distinct(1))
    then have ab: "b = a" by simp
    have rest: "\<forall>i < length s. i \<noteq> k' \<longrightarrow> t ! i = s ! i"
    proof (intro allI impI)
      fix i assume "i < length s" "i \<noteq> k'"
      then have "Suc i < length (a # s)" "Suc i \<noteq> k" using Suc by simp_all
      then have "(b # t) ! Suc i = (a # s) ! Suc i" using "4.prems"(3) by blast
      then show "t ! i = s ! i" by simp
    qed
    have "pair_steps s t = car_steps (s ! k') (t ! k')"
      using "4.prems"(1,2) Suc rest by (intro "4.IH") simp_all
    then show ?thesis using Suc ab by (simp add: pair_steps_Cons car_steps_same)
  qed
qed simp_all

lemma car_steps_row:
  "car_x c2 \<noteq> car_x c1 \<Longrightarrow> car_y c2 = car_y c1 \<Longrightarrow>
   car_steps c1 c2 = [if car_x c2 < car_x c1 then Up (car_name c1) else Down (car_name c1)]"
  by (auto simp: car_steps_def)

lemma car_steps_col:
  "car_x c2 = car_x c1 \<Longrightarrow> car_y c2 \<noteq> car_y c1 \<Longrightarrow>
   car_steps c1 c2 = [if car_y c2 < car_y c1 then Left (car_name c1) else Right (car_name c1)]"
  by (auto simp: car_steps_def)

lemma single_move_steps:
  assumes "single_move s t"
  shows "\<exists>k < length s. s ! k \<noteq> t ! k \<and>
     (\<exists>l. pair_steps s t = [l] \<and>
       (car_x (t ! k) < car_x (s ! k) \<longrightarrow> l = Up (car_name (s ! k))) \<and>
       (car_x (s ! k) < car_x (t ! k) \<longrightarrow> l = Down (car_name (s ! k))) \<and>
       (car_y (t ! k) < car_y (s ! k) \<longrightarrow> l = Left (car_name (s ! k))) \<and>
       (car_y (s ! k) < car_y (t ! k) \<longrightarrow> l = Right (car_name (s ! k))))"
proof -
  from assms obtain k where len: "length t = length s" and k: "k < length s"
    and others: "\<forall>i < length s. i \<noteq> k \<longrightarrow> t ! i = s ! i"
    and pos: "(car_x (t ! k) \<noteq> car_x (s ! k) \<and> car_y (t ! k) = car_y (s ! k)) \<or>
              (car_x (t ! k) = car_x (s ! k) \<and> car_y (t ! k) \<noteq> car_y (s ! k))"
    unfolding single_move_def by blast
  have ps: "pair_steps s t = car_steps (s ! k) (t ! k)"
    using len k others by (rule pair_steps_one_differs)
  have ne: "s ! k \<noteq> t ! k" using pos by auto
  from pos show ?thesis
  proof
    assume a: "car_x (t ! k) \<noteq> car_x (s ! k) \<and> car_y (t ! k) = car_y (s ! k)"
    then have "pair_steps s t =
       [if car_x (t ! k) < car_x (s ! k) then Up (car_name (s ! k)) else Down (car_name (s ! k))]"
      unfolding ps by (intro car_steps_row) simp_all
    then show ?thesis using k ne a by (intro exI [of _ k]) auto
  next
    assume a: "car_x (t ! k) = car_x (s ! k) \<and> car_y (t ! k) \<noteq> car_y (s ! k)"
    then have "pair_steps s t =
       [if car_y (t ! k) < car_y (s ! k) then Left (car_name (s ! k)) else Right (car_name (s ! k))]"
      unfolding ps by (intro car_steps_col) simp_all
    then show ?thesis using k ne a by (intro exI [of _ k]) auto
  qed
qed

lemma concat_singletons:
  "\<forall>i \<in> set is. length (g i) = 1 \<Longrightarrow> concat (map g is) = map (\<lambda>i. hd (g i)) is"
proof (induction "is")
  case Nil
  then show ?case by simp
next
  case (Cons i "is")
  then have "length (g i) = 1" by simp
  then have "g i = [hd (g i)]" by (cases "g i") simp_all
  with Cons show ?case by simp
qed

subsection \<open>Equality of reachable states\<close>

lemma reachable_same_cars_equal:
  assumes s: "(s0, s) \<in> move_rel\<^sup>*" and t: "(s0, t) \<in> move_rel\<^sup>*"
    and d: "distinct (map car_name s0)" and st: "set s = set t"
  shows "s = t"
proof (rule nth_equalityI)
  have ls: "same_layout s0 s" using s by (rule reachable_layout)
  have lt: "same_layout s0 t" using t by (rule reachable_layout)
  show len: "length s = length t" using ls lt by (simp add: same_layout_def)
  fix i assume i: "i < length s"
  then have i0: "i < length s0" using ls by (simp add: same_layout_def)
  have "s ! i \<in> set t" using i st by (metis nth_mem)
  then obtain j where j: "j < length t" and sj: "s ! i = t ! j" by (auto simp: in_set_conv_nth)
  have j0: "j < length s0" using j lt by (simp add: same_layout_def)
  have "car_name (s0 ! i) = car_name (s ! i)" using ls i0 by (simp add: same_layout_def)
  also have "\<dots> = car_name (t ! j)" using sj by simp
  also have "\<dots> = car_name (s0 ! j)" using lt j0 by (simp add: same_layout_def)
  finally have "map car_name s0 ! i = map car_name s0 ! j" using i0 j0 by simp
  moreover have "i < length (map car_name s0)" "j < length (map car_name s0)"
    using i0 j0 by simp_all
  ultimately have "i = j" using d by (simp only: nth_eq_iff_index_eq)
  then show "s ! i = t ! i" using sj by simp
qed

lemma swapped_cars_moves:
  "possible_moves swapped_cars =
   ([[\<lparr>car_name = ''b'', car_x = 4, car_y = 5, car_size = 2, car_direction = VERTICAL\<rparr>,
      \<lparr>car_name = ''r'', car_x = 2, car_y = 3, car_size = 2, car_direction = HORIZONTAL\<rparr>],
     [\<lparr>car_name = ''b'', car_x = 2, car_y = 5, car_size = 2, car_direction = VERTICAL\<rparr>,
      \<lparr>car_name = ''r'', car_x = 2, car_y = 3, car_size = 2, car_direction = HORIZONTAL\<rparr>],
     [\<lparr>car_name = ''b'', car_x = 3, car_y = 5, car_size = 2, car_direction = VERTICAL\<rparr>,
      \<lparr>car_name = ''r'', car_x = 2, car_y = 4, car_size = 2, car_direction = HORIZONTAL\<rparr>],
     [\<lparr>car_name = ''b'', car_x = 3, car_y = 5, car_size = 2, car_direction = VERTICAL\<rparr>,
      \<lparr>car_name = ''r'', car_x = 2, car_y = 2, car_size = 2, car_direction = HORIZONTAL\<rparr>]],
    None)"
  by code_simp

subsection \<open>Preservation of well-formedness\<close>

lemma slides_footprint:
  assumes sh: "shape b" and g: "\<forall>p \<in> set (footprint c). in_grid p"
    and c': "c' \<in> set (slides b c)"
  shows "\<exists>p. set (footprint c') \<subseteq> insert p (set (footprint c)) \<and>
             (set (footprint c') \<noteq> {} \<longrightarrow>
                in_grid p \<and> b ! nat (fst p) ! nat (snd p) = EMPTY_CELL)"
proof (cases "car_direction c")
  case HORIZONTAL
  have cases: "(car_y c + car_size c < BOARD_SIZE \<and>
                cell_is_empty b (car_x c) (car_y c + car_size c) = Inr True \<and>
                c' = c\<lparr>car_y := car_y c + 1\<rparr>) \<or>
               (car_y c > 0 \<and> cell_is_empty b (car_x c) (car_y c - 1) = Inr True \<and>
                c' = c\<lparr>car_y := car_y c - 1\<rparr>)"
    using c' HORIZONTAL by (auto simp: slides_def split: if_splits)
  have H': "car_direction c' = HORIZONTAL" using slides_keep [OF c'] HORIZONTAL by simp
  have origin: "in_grid (car_x c, car_y c)" if "1 \<le> car_size c"
    using g that by (simp add: footprint_H [OF HORIZONTAL])
  from cases show ?thesis
  proof
    assume a: "car_y c + car_size c < BOARD_SIZE \<and>
                cell_is_empty b (car_x c) (car_y c + car_size c) = Inr True \<and>
                c' = c\<lparr>car_y := car_y c + 1\<rparr>"
    let ?p = "(car_x c, car_y c + car_size c)"
    have sub: "set (footprint c') \<subseteq> insert ?p (set (footprint c))"
    proof
      fix q assume "q \<in> set (footprint c')"
      then have "fst q = car_x c \<and> car_y c + 1 \<le> snd q \<and> snd q < car_y c + 1 + car_size c"
        using footprint_H [OF H', of q] a by simp
      then have "q = ?p \<or> (fst q = car_x c \<and> car_y c \<le> snd q \<and> snd q < car_y c + car_size c)"
        by (cases q) auto
      then show "q \<in> insert ?p (set (footprint c))"
        by (auto simp: footprint_H [OF HORIZONTAL])
    qed
    have "in_grid ?p \<and> b ! nat (fst ?p) ! nat (snd ?p) = EMPTY_CELL"
      if ne: "set (footprint c') \<noteq> {}"
    proof -
      from ne obtain q where "q \<in> set (footprint c')" by (metis ex_in_conv)
      then have sz: "1 \<le> car_size c" using footprint_H [OF H', of q] a by simp
      have ig: "in_grid ?p" using origin [OF sz] a sz by (simp add: in_grid_def)
      from cell_is_empty_in_grid [OF sh ig] a show ?thesis using ig by simp
    qed
    with sub show ?thesis by blast
  next
    assume a: "car_y c > 0 \<and> cell_is_empty b (car_x c) (car_y c - 1) = Inr True \<and>
                c' = c\<lparr>car_y := car_y c - 1\<rparr>"
    let ?p = "(car_x c, car_y c - 1)"
    have sub: "set (footprint c') \<subseteq> insert ?p (set (footprint c))"
    proof
      fix q assume "q \<in> set (footprint c')"
      then have "fst q = car_x c \<and> car_y c - 1 \<le> snd q \<and> snd q < car_y c - 1 + car_size c"
        using footprint_H [OF H', of q] a by simp
      then have "q = ?p \<or> (fst q = car_x c \<and> car_y c \<le> snd q \<and> snd q < car_y c + car_size c)"
        by (cases q) auto
      then show "q \<in> insert ?p (set (footprint c))"
        by (auto simp: footprint_H [OF HORIZONTAL])
    qed
    have "in_grid ?p \<and> b ! nat (fst ?p) ! nat (snd ?p) = EMPTY_CELL"
      if ne: "set (footprint c') \<noteq> {}"
    proof -
      from ne obtain q where "q \<in> set (footprint c')" by (metis ex_in_conv)
      then have sz: "1 \<le> car_size c" using footprint_H [OF H', of q] a by simp
      have ig: "in_grid ?p" using origin [OF sz] a sz by (simp add: in_grid_def)
      from cell_is_empty_in_grid [OF sh ig] a show ?thesis using ig by simp
    qed
    with sub show ?thesis by blast
  qed
next
  case VERTICAL
  have cases: "(car_x c + car_size c < BOARD_SIZE \<and>
                cell_is_empty b (car_x c + car_size c) (car_y c) = Inr True \<and>
                c' = c\<lparr>car_x := car_x c + 1\<rparr>) \<or>
               (car_x c > 0 \<and> cell_is_empty b (car_x c - 1) (car_y c) = Inr True \<and>
                c' = c\<lparr>car_x := car_x c - 1\<rparr>)"
    using c' VERTICAL by (auto simp: slides_def split: if_splits)
  have V': "car_direction c' = VERTICAL" using slides_keep [OF c'] VERTICAL by simp
  have origin: "in_grid (car_x c, car_y c)" if "1 \<le> car_size c"
    using g that by (simp add: footprint_V [OF VERTICAL])
  from cases show ?thesis
  proof
    assume a: "car_x c + car_size c < BOARD_SIZE \<and>
                cell_is_empty b (car_x c + car_size c) (car_y c) = Inr True \<and>
                c' = c\<lparr>car_x := car_x c + 1\<rparr>"
    let ?p = "(car_x c + car_size c, car_y c)"
    have sub: "set (footprint c') \<subseteq> insert ?p (set (footprint c))"
    proof
      fix q assume "q \<in> set (footprint c')"
      then have "snd q = car_y c \<and> car_x c + 1 \<le> fst q \<and> fst q < car_x c + 1 + car_size c"
        using footprint_V [OF V', of q] a by simp
      then have "q = ?p \<or> (snd q = car_y c \<and> car_x c \<le> fst q \<and> fst q < car_x c + car_size c)"
        by (cases q) auto
      then show "q \<in> insert ?p (set (footprint c))"
        by (auto simp: footprint_V [OF VERTICAL])
    qed
    have "in_grid ?p \<and> b ! nat (fst ?p) ! nat (snd ?p) = EMPTY_CELL"
      if ne: "set (footprint c') \<noteq> {}"
    proof -
      from ne obtain q where "q \<in> set (footprint c')" by (metis ex_in_conv)
      then have sz: "1 \<le> car_size c" using footprint_V [OF V', of q] a by simp
      have ig: "in_grid ?p" using origin [OF sz] a sz by (simp add: in_grid_def)
      from cell_is_empty_in_grid [OF sh ig] a show ?thesis using ig by simp
    qed
    with sub show ?thesis by blast
  next
    assume a: "car_x c > 0 \<and> cell_is_empty b (car_x c - 1) (car_y c) = Inr True \<and>
                c' = c\<lparr>car_x := car_x c - 1\<rparr>"
    let ?p = "(car_x c - 1, car_y c)"
    have sub: "set (footprint c') \<subseteq> insert ?p (set (footprint c))"
    proof
      fix q assume "q \<in> set (footprint c')"
      then have "snd q = car_y c \<and> car_x c - 1 \<le> fst q \<and> fst q < car_x c - 1 + car_size c"
        using footprint_V [OF V', of q] a by simp
      then have "q = ?p \<or> (snd q = car_y c \<and> car_x c \<le> fst q \<and> fst q < car_x c + car_size c)"
        by (cases q) auto
      then show "q \<in> insert ?p (set (footprint c))"
        by (auto simp: footprint_V [OF VERTICAL])
    qed
    have "in_grid ?p \<and> b ! nat (fst ?p) ! nat (snd ?p) = EMPTY_CELL"
      if ne: "set (footprint c') \<noteq> {}"
    proof -
      from ne obtain q where "q \<in> set (footprint c')" by (metis ex_in_conv)
      then have sz: "1 \<le> car_size c" using footprint_V [OF V', of q] a by simp
      have ig: "in_grid ?p" using origin [OF sz] a sz by (simp add: in_grid_def)
      from cell_is_empty_in_grid [OF sh ig] a show ?thesis using ig by simp
    qed
    with sub show ?thesis by blast
  qed
next
  case (Other n)
  then show ?thesis using c' by (simp add: slides_def)
qed

lemma well_formed_step:
  assumes wf: "well_formed cars" and nm: "\<forall>c \<in> set cars. car_name c \<noteq> EMPTY_CELL"
    and t: "t \<in> set (fst (possible_moves cars))"
  shows "well_formed t \<and> (\<forall>c \<in> set t. car_name c \<noteq> EMPTY_CELL)"
proof -
  from possible_moves_sound [OF t] obtain b k c' where b: "get_board cars = Inr b"
    and k: "k < length cars" and c': "c' \<in> set (slides b (cars ! k))" and tk: "t = cars[k := c']"
    by blast
  have sh: "shape b" using b by (rule get_board_shape)
  have grid: "\<forall>c \<in> set cars. \<forall>p \<in> set (footprint c). in_grid p"
    using wf by (simp add: well_formed_def)
  have disj: "set (footprint (cars ! i)) \<inter> set (footprint (cars ! j)) = {}"
    if "i < length cars" "j < length cars" "i \<noteq> j" for i j
    using wf that by (simp add: well_formed_def)
  have "cars ! k \<in> set cars" using k by simp
  with grid have gk: "\<forall>p \<in> set (footprint (cars ! k)). in_grid p" by blast
  from slides_footprint [OF sh gk c'] obtain p
    where sub: "set (footprint c') \<subseteq> insert p (set (footprint (cars ! k)))"
      and pe: "set (footprint c') \<noteq> {} \<longrightarrow>
                 in_grid p \<and> b ! nat (fst p) ! nat (snd p) = EMPTY_CELL"
    by blast
  have free: "p \<notin> set (footprint d)" if ne: "set (footprint c') \<noteq> {}" and d: "d \<in> set cars" for d
  proof -
    from pe ne have ig: "in_grid p" and e: "b ! nat (fst p) ! nat (snd p) = EMPTY_CELL"
      by simp_all
    have r: "nat (fst p) < 6" "nat (snd p) < 6" and pp: "(int (nat (fst p)), int (nat (snd p))) = p"
      using ig by (auto simp: in_grid_def BOARD_SIZE_def)
    from get_board_empty_iff [OF b grid nm r] e
    have "\<forall>c \<in> set cars. (int (nat (fst p)), int (nat (snd p))) \<notin> set (footprint c)" by simp
    then show ?thesis using d pp by simp
  qed
  have len: "length t = length cars" by (simp add: tk)
  have nth_t: "t ! i = (if i = k then c' else cars ! i)" if "i < length cars" for i
    using that by (simp add: tk nth_list_update)
  have in_t: "d = c' \<or> d \<in> set cars" if "d \<in> set t" for d
    using that set_update_subset_insert [of cars k c'] by (auto simp: tk)
  have g': "\<forall>c \<in> set t. \<forall>q \<in> set (footprint c). in_grid q"
  proof (intro ballI)
    fix d q assume d: "d \<in> set t" and q: "q \<in> set (footprint d)"
    from in_t [OF d] show "in_grid q"
    proof
      assume "d = c'"
      then have qc: "q \<in> set (footprint c')" using q by simp
      then have "q = p \<or> q \<in> set (footprint (cars ! k))" using sub by blast
      then show ?thesis
      proof
        assume "q = p"
        moreover have "set (footprint c') \<noteq> {}" using qc by auto
        ultimately show ?thesis using pe by simp
      next
        assume "q \<in> set (footprint (cars ! k))"
        then show ?thesis using gk by simp
      qed
    next
      assume "d \<in> set cars"
      then show ?thesis using grid q by simp
    qed
  qed
  have one: "set (footprint c') \<inter> set (footprint (cars ! j)) = {}"
    if j: "j < length cars" and jk: "j \<noteq> k" for j
  proof (rule ccontr)
    assume "set (footprint c') \<inter> set (footprint (cars ! j)) \<noteq> {}"
    then obtain q where qc: "q \<in> set (footprint c')" and qj: "q \<in> set (footprint (cars ! j))"
      by blast
    have ne: "set (footprint c') \<noteq> {}" using qc by auto
    have "q = p \<or> q \<in> set (footprint (cars ! k))" using sub qc by blast
    then show False
    proof
      assume "q = p"
      moreover have "cars ! j \<in> set cars" using j by simp
      ultimately show False using free [OF ne] qj by blast
    next
      assume "q \<in> set (footprint (cars ! k))"
      then show False using disj [OF k j] jk qj by blast
    qed
  qed
  have d': "set (footprint (t ! i)) \<inter> set (footprint (t ! j)) = {}"
    if i: "i < length t" and j: "j < length t" and ij: "i \<noteq> j" for i j
  proof -
    have i': "i < length cars" and j': "j < length cars" using i j len by simp_all
    show ?thesis
    proof (cases "i = k")
      case True
      then have jk: "j \<noteq> k" using ij by simp
      have ti: "t ! i = c'" using nth_t [OF i'] True by simp
      have tj: "t ! j = cars ! j" using nth_t [OF j'] jk by simp
      show ?thesis unfolding ti tj using jk by (rule one [OF j'])
    next
      case False
      have ti: "t ! i = cars ! i" using nth_t [OF i'] False by simp
      show ?thesis
      proof (cases "j = k")
        case True
        have tj: "t ! j = c'" using nth_t [OF j'] True by simp
        have "set (footprint c') \<inter> set (footprint (cars ! i)) = {}" using one [OF i' False] .
        then show ?thesis unfolding ti tj by blast
      next
        case jk: False
        have tj: "t ! j = cars ! j" using nth_t [OF j'] jk by simp
        show ?thesis unfolding ti tj using i' j' ij by (rule disj)
      qed
    qed
  qed
  have n': "\<forall>c \<in> set t. car_name c \<noteq> EMPTY_CELL"
  proof
    fix d assume "d \<in> set t"
    from in_t [OF this] show "car_name d \<noteq> EMPTY_CELL"
    proof
      assume "d = c'"
      then have "car_name d = car_name (cars ! k)" using slides_keep [OF c'] by simp
      then show ?thesis using nm k by simp
    next
      assume "d \<in> set cars"
      then show ?thesis using nm by simp
    qed
  qed
  show ?thesis unfolding well_formed_def using g' d' n' by blast
qed

lemma well_formed_reachable:
  assumes "(s0, s) \<in> move_rel\<^sup>*" and "well_formed s0"
    and "\<forall>c \<in> set s0. car_name c \<noteq> EMPTY_CELL"
  shows "well_formed s \<and> (\<forall>c \<in> set s. car_name c \<noteq> EMPTY_CELL)"
  using assms
proof (induction rule: rtrancl_induct)
  case base
  then show ?case by simp
next
  case (step t u)
  then have "well_formed t" and "\<forall>c \<in> set t. car_name c \<noteq> EMPTY_CELL" by simp_all
  moreover have "u \<in> set (fst (possible_moves t))" using step.hyps(2) by (simp add: move_rel_def)
  ultimately show ?case by (rule well_formed_step)
qed

lemma well_formed_two:
  assumes "length cars = 2"
    and "\<forall>p \<in> set (footprint (cars ! 0)). in_grid p"
    and "\<forall>p \<in> set (footprint (cars ! 1)). in_grid p"
    and "set (footprint (cars ! 0)) \<inter> set (footprint (cars ! 1)) = {}"
  shows "well_formed cars"
proof -
  obtain a b where cars: "cars = [a, b]"
    using assms(1) by (metis (no_types) length_0_conv length_Suc_conv numeral_2_eq_2)
  have "i = 0 \<or> i = 1" if "i < length cars" for i using that assms(1) by auto
  then have d: "set (footprint (cars ! i)) \<inter> set (footprint (cars ! j)) = {}"
    if "i < length cars" "j < length cars" "i \<noteq> j" for i j
    using that assms(4) by (metis Int_commute)
  show ?thesis unfolding well_formed_def using assms(2,3) d cars by simp
qed

lemma blank_name_moves:
  "possible_moves blank_name_example =
    ([[\<lparr>car_name = '' '', car_x = 0, car_y = 3, car_size = 2, car_direction = HORIZONTAL\<rparr>,
       \<lparr>car_name = ''a'', car_x = 0, car_y = 0, car_size = 2, car_direction = HORIZONTAL\<rparr>],
      [\<lparr>car_name = '' '', car_x = 0, car_y = 2, car_size = 2, car_direction = HORIZONTAL\<rparr>,
       \<lparr>car_name = ''a'', car_x = 0, car_y = 1, car_size = 2, car_direction = HORIZONTAL\<rparr>]],
     None)"
  by code_simp

subsection \<open>Paths and the loop of the solver\<close>

lemma in_bounds_step:
  assumes ib: "in_bounds s" and t: "t \<in> set (fst (possible_moves s))"
  shows "in_bounds t"
proof -
  from in_bounds_get_board [OF ib] obtain b where b: "get_board s = Inr b" and sh: "shape b"
    by blast
  from t [unfolded possible_moves_member [OF ib b]] obtain k c'
    where k: "k < length s" and c': "c' \<in> set (slides b (s ! k))" and tk: "t = s[k := c']"
    by blast
  have ibc: "in_bounds_car (s ! k)" using ib k by (simp add: in_bounds_def)
  have "in_bounds_car c'"
    using c' [unfolded slides_legal [OF sh ibc]]
  proof (elim disjE conjE)
    assume H: "car_direction (s ! k) = HORIZONTAL" and "car_y (s ! k) + car_size (s ! k) < 6"
      and e: "c' = (s ! k)\<lparr>car_y := car_y (s ! k) + 1\<rparr>"
    then show ?thesis using ibc in_bounds_car_H [of c'] in_bounds_car_H [OF H] by simp
  next
    assume H: "car_direction (s ! k) = HORIZONTAL" and "0 < car_y (s ! k)"
      and e: "c' = (s ! k)\<lparr>car_y := car_y (s ! k) - 1\<rparr>"
    then show ?thesis using ibc in_bounds_car_H [of c'] in_bounds_car_H [OF H] by simp
  next
    assume V: "car_direction (s ! k) = VERTICAL" and "car_x (s ! k) + car_size (s ! k) < 6"
      and e: "c' = (s ! k)\<lparr>car_x := car_x (s ! k) + 1\<rparr>"
    then show ?thesis using ibc in_bounds_car_V [of c'] in_bounds_car_V [OF V] by simp
  next
    assume V: "car_direction (s ! k) = VERTICAL" and "0 < car_x (s ! k)"
      and e: "c' = (s ! k)\<lparr>car_x := car_x (s ! k) - 1\<rparr>"
    then show ?thesis using ibc in_bounds_car_V [of c'] in_bounds_car_V [OF V] by simp
  qed
  then show ?thesis
    unfolding in_bounds_def tk using ib set_update_subset_insert [of s k c']
    by (auto simp: in_bounds_def)
qed

lemma in_bounds_reachable: "(s0, s) \<in> move_rel\<^sup>* \<Longrightarrow> in_bounds s0 \<Longrightarrow> in_bounds s"
proof (induction rule: rtrancl_induct)
  case base
  then show ?case by simp
next
  case (step t u)
  then have "in_bounds t" by simp
  moreover have "u \<in> set (fst (possible_moves t))" using step.hyps(2) by (simp add: move_rel_def)
  ultimately show ?case by (rule in_bounds_step)
qed

lemma in_bounds_no_error: "in_bounds s \<Longrightarrow> snd (possible_moves s) = None"
proof -
  assume ib: "in_bounds s"
  from in_bounds_get_board [OF ib] obtain b where b: "get_board s = Inr b" by blast
  show ?thesis by (simp add: possible_moves_exact [OF ib b])
qed

lemma valid_path_snoc:
  "p \<noteq> [] \<Longrightarrow> valid_path (p @ [a]) \<longleftrightarrow> valid_path p \<and> a \<in> set (fst (possible_moves (last p)))"
proof (induction p rule: valid_path.induct)
  case 1
  then show ?case by simp
next
  case (2 s)
  then show ?case by simp
next
  case (3 s t rest)
  then show ?case by auto
qed

lemma valid_path_relpow:
  "p \<noteq> [] \<Longrightarrow> valid_path p \<Longrightarrow> (hd p, last p) \<in> move_rel ^^ (length p - 1)"
proof (induction p rule: rev_induct)
  case Nil
  then show ?case by simp
next
  case (snoc a p)
  show ?case
  proof (cases "p = []")
    case True
    then show ?thesis by simp
  next
    case False
    from snoc.prems(2) have vp: "valid_path p" and a: "a \<in> set (fst (possible_moves (last p)))"
      using valid_path_snoc [OF False] by simp_all
    have "(hd p, last p) \<in> move_rel ^^ (length p - 1)" using False vp by (rule snoc.IH)
    moreover have "(last p, a) \<in> move_rel" using a by (simp add: move_rel_def)
    ultimately have "(hd p, a) \<in> move_rel ^^ Suc (length p - 1)" by (rule relpow_Suc_I)
    then show ?thesis using False by (simp add: Suc_diff_1 [OF length_greater_0_conv [THEN iffD2]])
  qed
qed

lemma valid_path_in_bounds:
  "p \<noteq> [] \<Longrightarrow> valid_path p \<Longrightarrow> in_bounds (hd p) \<Longrightarrow> \<forall>s \<in> set p. in_bounds s"
proof (induction p rule: rev_induct)
  case Nil
  then show ?case by simp
next
  case (snoc a p)
  show ?case
  proof (cases "p = []")
    case True
    then show ?thesis using snoc.prems by simp
  next
    case False
    from snoc.prems(2) have vp: "valid_path p" and a: "a \<in> set (fst (possible_moves (last p)))"
      using valid_path_snoc [OF False] by simp_all
    have ih: "\<forall>s \<in> set p. in_bounds s" using False vp snoc.prems(3) by (intro snoc.IH) simp_all
    then have "in_bounds (last p)" using False by simp
    then have "in_bounds a" using a by (rule in_bounds_step)
    with ih show ?thesis by simp
  qed
qed

lemma boards_of_in_bounds: "\<forall>s \<in> set p. in_bounds s \<Longrightarrow> \<exists>bs. boards_of p = Inr bs"
proof (induction p)
  case Nil
  then show ?case by simp
next
  case (Cons s p)
  then have "in_bounds s" by simp
  from in_bounds_get_board [OF this] obtain b where "get_board s = Inr b" by blast
  moreover from Cons obtain bs where "boards_of p = Inr bs" by auto
  ultimately show ?case by simp
qed

lemma run_step_skip: "b \<in> seen \<Longrightarrow> run_step seen (b, h) rest = Running seen rest"
  by (simp add: run_step_def)

lemma run_step_goal:
  "b \<notin> seen \<Longrightarrow> ENDPOINT \<in> set b \<Longrightarrow> boards_of (h @ [b]) = Inr bs \<Longrightarrow>
   run_step seen (b, h) rest = Finished (print_moves (h @ [b]) @ [DebugBoards bs], None)"
  by (simp add: run_step_def)

lemma run_step_expand:
  "b \<notin> seen \<Longrightarrow> ENDPOINT \<notin> set b \<Longrightarrow> snd (possible_moves b) = None \<Longrightarrow>
   run_step seen (b, h) rest =
     Running (insert b seen) (rest @ map (\<lambda>m. (m, h @ [b])) (fst (possible_moves b)))"
  by (cases "possible_moves b") (simp add: run_step_def)

lemma run_loop_more_fuel:
  "run_loop n seen queue = Some r \<Longrightarrow> run_loop (n + k) seen queue = Some r"
proof (induction n seen queue rule: run_loop.induct)
  case (1 fuel boards_seen)
  then show ?case by simp
next
  case (2 boards_seen entry queue)
  then show ?case by simp
next
  case (3 fuel boards_seen entry queue)
  then show ?case by (auto split: progress.splits)
qed

subsection \<open>Finitely many reachable states\<close>

lemma in_bounds_car_origin:
  assumes "in_bounds_car c"
  shows "car_x c \<in> {0..5} \<and> car_y c \<in> {0..5}"
proof -
  have "car_direction c = HORIZONTAL \<or> car_direction c = VERTICAL"
    using assms by (simp add: in_bounds_car_def)
  then show ?thesis
  proof
    assume H: "car_direction c = HORIZONTAL"
    show ?thesis using assms in_bounds_car_H [OF H] by auto
  next
    assume V: "car_direction c = VERTICAL"
    show ?thesis using assms in_bounds_car_V [OF V] by auto
  qed
qed

lemma car_same_up_to_origin:
  "car_name (c :: car) = car_name (d :: car) \<Longrightarrow> car_size c = car_size d \<Longrightarrow> car_direction c = car_direction d \<Longrightarrow>
   c = d\<lparr>car_x := car_x c, car_y := car_y c\<rparr>"
  by (cases c; cases d) simp

lemma finite_reachable:
  assumes "in_bounds s0"
  shows "finite {s. (s0, s) \<in> move_rel\<^sup>*}"
proof -
  define A where "A = (\<lambda>(d, r, q). d\<lparr>car_x := r, car_y := q\<rparr>) ` (set s0 \<times> {0..5::int} \<times> {0..5::int})"
  have fA: "finite A" unfolding A_def by (intro finite_imageI finite_cartesian_product) simp_all
  have "{s. (s0, s) \<in> move_rel\<^sup>*} \<subseteq> {xs. set xs \<subseteq> A \<and> length xs = length s0}"
  proof
    fix s assume "s \<in> {s. (s0, s) \<in> move_rel\<^sup>*}"
    then have r: "(s0, s) \<in> move_rel\<^sup>*" by simp
    have lay: "same_layout s0 s" using r by (rule reachable_layout)
    have ib: "in_bounds s" using r assms by (rule in_bounds_reachable)
    have len: "length s = length s0" using lay by (simp add: same_layout_def)
    have "set s \<subseteq> A"
    proof
      fix c assume "c \<in> set s"
      then obtain i where i: "i < length s" and c: "c = s ! i" by (auto simp: in_set_conv_nth)
      have i0: "i < length s0" using i len by simp
      have same: "car_name c = car_name (s0 ! i)" "car_size c = car_size (s0 ! i)"
        "car_direction c = car_direction (s0 ! i)"
        using lay i0 c by (simp_all add: same_layout_def)
      have "in_bounds_car c" using ib i c by (simp add: in_bounds_def)
      then have o: "car_x c \<in> {0..5}" "car_y c \<in> {0..5}"
        using in_bounds_car_origin by simp_all
      have "c = (s0 ! i)\<lparr>car_x := car_x c, car_y := car_y c\<rparr>"
        using same by (rule car_same_up_to_origin)
      moreover have "(s0 ! i, car_x c, car_y c) \<in> set s0 \<times> {0..5} \<times> {0..5}"
        using i0 o by simp
      ultimately show "c \<in> A" unfolding A_def
        by (intro image_eqI [where x = "(s0 ! i, car_x c, car_y c)"]) simp_all
    qed
    with len show "s \<in> {xs. set xs \<subseteq> A \<and> length xs = length s0}" by simp
  qed
  moreover have "finite {xs. set xs \<subseteq> A \<and> length xs = length s0}"
    using fA by (rule finite_lists_length_eq)
  ultimately show ?thesis by (rule finite_subset)
qed

subsection \<open>The invariant of the search\<close>

lemma bfs_invD:
  assumes "bfs_inv s0 seen queue"
  shows "s0 \<in> seen \<or> (seen = {} \<and> queue = [(s0, [])])"
    and "\<And>b h. (b, h) \<in> set queue \<Longrightarrow> valid_path (h @ [b]) \<and> hd (h @ [b]) = s0"
    and "sorted (map (\<lambda>e. length (snd e)) queue)"
    and "\<And>e e'. e \<in> set queue \<Longrightarrow> e' \<in> set queue \<Longrightarrow> length (snd e) \<le> Suc (length (snd e'))"
    and "\<And>s. s \<in> seen \<Longrightarrow> ENDPOINT \<notin> set s \<and> (s0, s) \<in> move_rel\<^sup>*"
    and "\<And>s t. s \<in> seen \<Longrightarrow> t \<in> set (fst (possible_moves s)) \<Longrightarrow>
           t \<in> seen \<or>
           (\<exists>h. (t, h) \<in> set queue \<and> (\<forall>n. (s0, s) \<in> move_rel ^^ n \<longrightarrow> length h \<le> Suc n))"
proof -
  show "s0 \<in> seen \<or> (seen = {} \<and> queue = [(s0, [])])"
    using assms unfolding bfs_inv_def by (elim conjE)
  show "valid_path (h @ [b]) \<and> hd (h @ [b]) = s0" if "(b, h) \<in> set queue" for b h
  proof -
    have "\<forall>e \<in> set queue. valid_path (snd e @ [fst e]) \<and> hd (snd e @ [fst e]) = s0"
      using assms unfolding bfs_inv_def by (elim conjE)
    from this [rule_format, OF that] show ?thesis by simp
  qed
  show "sorted (map (\<lambda>e. length (snd e)) queue)"
    using assms unfolding bfs_inv_def by (elim conjE)
  show "length (snd e) \<le> Suc (length (snd e'))" if "e \<in> set queue" "e' \<in> set queue" for e e'
  proof -
    have "\<forall>e \<in> set queue. \<forall>e' \<in> set queue. length (snd e) \<le> Suc (length (snd e'))"
      using assms unfolding bfs_inv_def by (elim conjE)
    from this [rule_format, OF that] show ?thesis .
  qed
  show "ENDPOINT \<notin> set s \<and> (s0, s) \<in> move_rel\<^sup>*" if "s \<in> seen" for s
  proof -
    have "\<forall>s \<in> seen. ENDPOINT \<notin> set s \<and> (s0, s) \<in> move_rel\<^sup>*"
      using assms unfolding bfs_inv_def by (elim conjE)
    from this [rule_format, OF that] show ?thesis .
  qed
  show "t \<in> seen \<or>
        (\<exists>h. (t, h) \<in> set queue \<and> (\<forall>n. (s0, s) \<in> move_rel ^^ n \<longrightarrow> length h \<le> Suc n))"
    if "s \<in> seen" "t \<in> set (fst (possible_moves s))" for s t
  proof -
    have "\<forall>s \<in> seen. \<forall>t \<in> set (fst (possible_moves s)).
         t \<in> seen \<or>
         (\<exists>h. (t, h) \<in> set queue \<and> (\<forall>n. (s0, s) \<in> move_rel ^^ n \<longrightarrow> length h \<le> Suc n))"
      using assms unfolding bfs_inv_def by (elim conjE)
    from this [rule_format, OF that] show ?thesis .
  qed
qed

lemma bfs_invI:
  assumes "s0 \<in> seen \<or> (seen = {} \<and> queue = [(s0, [])])"
    and "\<And>b h. (b, h) \<in> set queue \<Longrightarrow> valid_path (h @ [b]) \<and> hd (h @ [b]) = s0"
    and "sorted (map (\<lambda>e. length (snd e)) queue)"
    and "\<And>e e'. e \<in> set queue \<Longrightarrow> e' \<in> set queue \<Longrightarrow> length (snd e) \<le> Suc (length (snd e'))"
    and "\<And>s. s \<in> seen \<Longrightarrow> ENDPOINT \<notin> set s \<and> (s0, s) \<in> move_rel\<^sup>*"
    and "\<And>s t. s \<in> seen \<Longrightarrow> t \<in> set (fst (possible_moves s)) \<Longrightarrow>
           t \<in> seen \<or>
           (\<exists>h. (t, h) \<in> set queue \<and> (\<forall>n. (s0, s) \<in> move_rel ^^ n \<longrightarrow> length h \<le> Suc n))"
  shows "bfs_inv s0 seen queue"
  unfolding bfs_inv_def
proof (intro conjI ballI)
  show "s0 \<in> seen \<or> (seen = {} \<and> queue = [(s0, [])])" by (rule assms(1))
next
  fix e assume "e \<in> set queue"
  then have "(fst e, snd e) \<in> set queue" by simp
  from assms(2) [OF this] show "valid_path (snd e @ [fst e])" and "hd (snd e @ [fst e]) = s0"
    by simp_all
next
  show "sorted (map (\<lambda>e. length (snd e)) queue)" by (rule assms(3))
next
  fix e e' assume "e \<in> set queue" "e' \<in> set queue"
  then show "length (snd e) \<le> Suc (length (snd e'))" by (rule assms(4))
next
  fix s assume "s \<in> seen"
  from assms(5) [OF this] show "ENDPOINT \<notin> set s" and "(s0, s) \<in> move_rel\<^sup>*" by simp_all
next
  fix s t assume "s \<in> seen" "t \<in> set (fst (possible_moves s))"
  then show "t \<in> seen \<or>
           (\<exists>h. (t, h) \<in> set queue \<and> (\<forall>n. (s0, s) \<in> move_rel ^^ n \<longrightarrow> length h \<le> Suc n))"
    by (rule assms(6))
qed

lemma bfs_inv_init: "bfs_inv s0 {} [(s0, [])]"
  by (rule bfs_invI) simp_all

lemma bfs_head_least:
  assumes "bfs_inv s0 seen ((b, h) # rest)" and "e \<in> set ((b, h) # rest)"
  shows "length h \<le> length (snd e)"
proof -
  have "sorted (map (\<lambda>e. length (snd e)) ((b, h) # rest))" using assms(1) by (rule bfs_invD(3))
  then have "\<forall>y \<in> set (map (\<lambda>e. length (snd e)) rest). length h \<le> y" by simp
  then show ?thesis using assms(2) by auto
qed

lemma bfs_near_seen:
  assumes inv: "bfs_inv s0 seen ((b, h) # rest)"
  shows "(s0, t) \<in> move_rel ^^ n \<Longrightarrow> n < length h \<Longrightarrow> t \<in> seen"
proof (induction n arbitrary: t)
  case 0
  then have t: "t = s0" and pos: "0 < length h" by simp_all
  from bfs_invD(1) [OF inv] show ?case
  proof
    assume "s0 \<in> seen"
    then show ?thesis using t by simp
  next
    assume "seen = {} \<and> (b, h) # rest = [(s0, [])]"
    then have "h = []" by simp
    then show ?thesis using pos by simp
  qed
next
  case (Suc n)
  from Suc.prems(1) obtain u where u: "(s0, u) \<in> move_rel ^^ n" and ut: "(u, t) \<in> move_rel"
    by (rule relpow_Suc_E)
  have useen: "u \<in> seen" using u Suc.prems(2) by (intro Suc.IH) simp_all
  have "t \<in> set (fst (possible_moves u))" using ut by (simp add: move_rel_def)
  from bfs_invD(6) [OF inv useen this] show ?case
  proof
    assume "t \<in> seen"
    then show ?thesis .
  next
    assume "\<exists>h'. (t, h') \<in> set ((b, h) # rest) \<and>
               (\<forall>n. (s0, u) \<in> move_rel ^^ n \<longrightarrow> length h' \<le> Suc n)"
    then obtain h' where q: "(t, h') \<in> set ((b, h) # rest)"
      and bound: "\<forall>n. (s0, u) \<in> move_rel ^^ n \<longrightarrow> length h' \<le> Suc n" by blast
    have "length h' \<le> Suc n" using bound u by blast
    moreover have "length h \<le> length h'" using bfs_head_least [OF inv q] by simp
    ultimately have False using Suc.prems(2) by simp
    then show ?thesis ..
  qed
qed

lemma bfs_popped_shortest:
  assumes "bfs_inv s0 seen ((b, h) # rest)" and "t \<notin> seen" and "(s0, t) \<in> move_rel ^^ n"
  shows "length h \<le> n"
proof (rule ccontr)
  assume "\<not> length h \<le> n"
  then have "n < length h" by simp
  with assms(1,3) have "t \<in> seen" by (rule bfs_near_seen)
  with assms(2) show False by simp
qed

lemma bfs_entry_reachable:
  assumes "bfs_inv s0 seen queue" and "(b, h) \<in> set queue"
  shows "(s0, b) \<in> move_rel ^^ length h" and "(s0, b) \<in> move_rel\<^sup>*"
proof -
  from bfs_invD(2) [OF assms] have vp: "valid_path (h @ [b])" and hd: "hd (h @ [b]) = s0"
    by simp_all
  have "(hd (h @ [b]), last (h @ [b])) \<in> move_rel ^^ (length (h @ [b]) - 1)"
    using vp by (intro valid_path_relpow) simp_all
  then show "(s0, b) \<in> move_rel ^^ length h" using hd by simp
  then show "(s0, b) \<in> move_rel\<^sup>*" by (rule relpow_imp_rtrancl)
qed

lemma bfs_inv_skip:
  assumes inv: "bfs_inv s0 seen ((b, h) # rest)" and b: "b \<in> seen"
  shows "bfs_inv s0 seen rest"
proof (rule bfs_invI)
  from bfs_invD(1) [OF inv] b show "s0 \<in> seen \<or> (seen = {} \<and> rest = [(s0, [])])" by auto
next
  fix c g assume "(c, g) \<in> set rest"
  then have "(c, g) \<in> set ((b, h) # rest)" by simp
  then show "valid_path (g @ [c]) \<and> hd (g @ [c]) = s0" by (rule bfs_invD(2) [OF inv])
next
  from bfs_invD(3) [OF inv] show "sorted (map (\<lambda>e. length (snd e)) rest)" by simp
next
  fix e e' assume "e \<in> set rest" "e' \<in> set rest"
  then have "e \<in> set ((b, h) # rest)" "e' \<in> set ((b, h) # rest)" by simp_all
  then show "length (snd e) \<le> Suc (length (snd e'))" by (rule bfs_invD(4) [OF inv])
next
  fix s assume "s \<in> seen"
  then show "ENDPOINT \<notin> set s \<and> (s0, s) \<in> move_rel\<^sup>*" by (rule bfs_invD(5) [OF inv])
next
  fix s t assume s: "s \<in> seen" and t: "t \<in> set (fst (possible_moves s))"
  from bfs_invD(6) [OF inv s t]
  show "t \<in> seen \<or>
        (\<exists>h. (t, h) \<in> set rest \<and> (\<forall>n. (s0, s) \<in> move_rel ^^ n \<longrightarrow> length h \<le> Suc n))"
  proof
    assume "t \<in> seen"
    then show ?thesis ..
  next
    assume "\<exists>h'. (t, h') \<in> set ((b, h) # rest) \<and>
               (\<forall>n. (s0, s) \<in> move_rel ^^ n \<longrightarrow> length h' \<le> Suc n)"
    then obtain h' where q: "(t, h') \<in> set ((b, h) # rest)"
      and bound: "\<forall>n. (s0, s) \<in> move_rel ^^ n \<longrightarrow> length h' \<le> Suc n" by blast
    show ?thesis
    proof (cases "(t, h') = (b, h)")
      case True
      then show ?thesis using b by simp
    next
      case False
      then have "(t, h') \<in> set rest" using q by auto
      then show ?thesis using bound by blast
    qed
  qed
qed

lemma bfs_inv_expand:
  assumes inv: "bfs_inv s0 seen ((b, h) # rest)" and b: "b \<notin> seen"
    and ng: "ENDPOINT \<notin> set b"
  shows "bfs_inv s0 (insert b seen) (rest @ map (\<lambda>m. (m, h @ [b])) (fst (possible_moves b)))"
    (is "bfs_inv s0 ?seen ?queue")
proof (rule bfs_invI)
  have hd_in: "(b, h) \<in> set ((b, h) # rest)" by simp
  have in_new: "e \<in> set ?queue \<longleftrightarrow>
      e \<in> set rest \<or> (snd e = h @ [b] \<and> fst e \<in> set (fst (possible_moves b)))" for e
    by (cases e) auto
  have lo: "length h \<le> length (snd e)" if "e \<in> set ?queue" for e
  proof -
    from that [unfolded in_new] show ?thesis
    proof
      assume "e \<in> set rest"
      then have "e \<in> set ((b, h) # rest)" by simp
      with inv show ?thesis by (rule bfs_head_least)
    next
      assume "snd e = h @ [b] \<and> fst e \<in> set (fst (possible_moves b))"
      then show ?thesis by simp
    qed
  qed
  have hi: "length (snd e) \<le> Suc (length h)" if "e \<in> set ?queue" for e
  proof -
    from that [unfolded in_new] show ?thesis
    proof
      assume "e \<in> set rest"
      then have "e \<in> set ((b, h) # rest)" by simp
      from bfs_invD(4) [OF inv this hd_in] show ?thesis by simp
    next
      assume "snd e = h @ [b] \<and> fst e \<in> set (fst (possible_moves b))"
      then show ?thesis by simp
    qed
  qed
  show "s0 \<in> ?seen \<or> (?seen = {} \<and> ?queue = [(s0, [])])"
    using bfs_invD(1) [OF inv] by auto
  show "valid_path (g @ [c]) \<and> hd (g @ [c]) = s0" if "(c, g) \<in> set ?queue" for c g
  proof -
    from that [unfolded in_new] show ?thesis
    proof
      assume "(c, g) \<in> set rest"
      then have "(c, g) \<in> set ((b, h) # rest)" by simp
      then show ?thesis by (rule bfs_invD(2) [OF inv])
    next
      assume "snd (c, g) = h @ [b] \<and> fst (c, g) \<in> set (fst (possible_moves b))"
      then have g: "g = h @ [b]" and c: "c \<in> set (fst (possible_moves b))" by simp_all
      from bfs_invD(2) [OF inv hd_in] have vp: "valid_path (h @ [b])" and hd: "hd (h @ [b]) = s0"
        by simp_all
      have "valid_path ((h @ [b]) @ [c])"
        using vp c by (subst valid_path_snoc) simp_all
      moreover have "hd ((h @ [b]) @ [c]) = s0" using hd by (cases h) simp_all
      ultimately show ?thesis by (simp add: g)
    qed
  qed
  show "sorted (map (\<lambda>e. length (snd e)) ?queue)"
  proof -
    have "sorted (map (\<lambda>e. length (snd e)) rest)" using bfs_invD(3) [OF inv] by simp
    moreover have "sorted (map (\<lambda>e. length (snd e)) (map (\<lambda>m. (m, h @ [b])) (fst (possible_moves b))))"
      by (induction "fst (possible_moves b)") (simp_all add: sorted_iff_nth_mono comp_def)
    moreover have "\<forall>x \<in> set (map (\<lambda>e. length (snd e)) rest).
        \<forall>y \<in> set (map (\<lambda>e. length (snd e)) (map (\<lambda>m. (m, h @ [b])) (fst (possible_moves b)))).
        x \<le> y"
    proof (intro ballI)
      fix x y assume "x \<in> set (map (\<lambda>e. length (snd e)) rest)"
        and "y \<in> set (map (\<lambda>e. length (snd e)) (map (\<lambda>m. (m, h @ [b])) (fst (possible_moves b))))"
      then obtain e where "e \<in> set rest" and x: "x = length (snd e)" and y: "y = Suc (length h)"
        by auto
      then have "e \<in> set ?queue" by simp
      from hi [OF this] show "x \<le> y" using x y by simp
    qed
    ultimately show ?thesis by (simp add: sorted_append)
  qed
  show "length (snd e) \<le> Suc (length (snd e'))" if "e \<in> set ?queue" "e' \<in> set ?queue" for e e'
    using hi [OF that(1)] lo [OF that(2)] by simp
  show "ENDPOINT \<notin> set s \<and> (s0, s) \<in> move_rel\<^sup>*" if "s \<in> ?seen" for s
  proof (cases "s = b")
    case True
    then show ?thesis using ng bfs_entry_reachable(2) [OF inv hd_in] by simp
  next
    case False
    then have "s \<in> seen" using that by simp
    then show ?thesis by (rule bfs_invD(5) [OF inv])
  qed
  show "t \<in> ?seen \<or>
        (\<exists>g. (t, g) \<in> set ?queue \<and> (\<forall>n. (s0, s) \<in> move_rel ^^ n \<longrightarrow> length g \<le> Suc n))"
    if s: "s \<in> ?seen" and t: "t \<in> set (fst (possible_moves s))" for s t
  proof (cases "s = b")
    case True
    have "(t, h @ [b]) \<in> set ?queue" using t True by simp
    moreover have "\<forall>n. (s0, s) \<in> move_rel ^^ n \<longrightarrow> length (h @ [b]) \<le> Suc n"
    proof (intro allI impI)
      fix n assume "(s0, s) \<in> move_rel ^^ n"
      then have "(s0, b) \<in> move_rel ^^ n" using True by simp
      with inv b have "length h \<le> n" by (rule bfs_popped_shortest)
      then show "length (h @ [b]) \<le> Suc n" by simp
    qed
    ultimately show ?thesis by blast
  next
    case False
    then have s': "s \<in> seen" using s by simp
    from bfs_invD(6) [OF inv s' t] show ?thesis
    proof
      assume "t \<in> seen"
      then show ?thesis by simp
    next
      assume "\<exists>h'. (t, h') \<in> set ((b, h) # rest) \<and>
               (\<forall>n. (s0, s) \<in> move_rel ^^ n \<longrightarrow> length h' \<le> Suc n)"
      then obtain h' where q: "(t, h') \<in> set ((b, h) # rest)"
        and bound: "\<forall>n. (s0, s) \<in> move_rel ^^ n \<longrightarrow> length h' \<le> Suc n" by blast
      show ?thesis
      proof (cases "(t, h') = (b, h)")
        case True
        then show ?thesis by simp
      next
        case False
        then have "(t, h') \<in> set ?queue" using q by auto
        then show ?thesis using bound by blast
      qed
    qed
  qed
qed

lemma bfs_inv_exhausted:
  assumes inv: "bfs_inv s0 seen []" and g: "(s0, g) \<in> move_rel\<^sup>*"
  shows "g \<in> seen"
  using g
proof (induction rule: rtrancl_induct)
  case base
  from bfs_invD(1) [OF inv] show ?case by simp
next
  case (step u t)
  have "t \<in> set (fst (possible_moves u))" using step.hyps(2) by (simp add: move_rel_def)
  from bfs_invD(6) [OF inv step.IH this] show ?case by simp
qed

lemma run_loop_total:
  assumes ib: "in_bounds s0"
  shows "bfs_inv s0 seen queue \<Longrightarrow> \<exists>fuel r. run_loop fuel seen queue = Some r \<and> bfs_post s0 r"
proof (induction "card ({s. (s0, s) \<in> move_rel\<^sup>*} - seen)" arbitrary: seen queue rule: less_induct)
  case less
  let ?R = "{s. (s0, s) \<in> move_rel\<^sup>*}"
  have fin: "finite ?R" using ib by (rule finite_reachable)
  have inner: "bfs_inv s0 seen q \<Longrightarrow> \<exists>fuel r. run_loop fuel seen q = Some r \<and> bfs_post s0 r" for q
  proof (induction q)
    case Nil
    have "\<forall>g. (s0, g) \<in> move_rel\<^sup>* \<longrightarrow> ENDPOINT \<notin> set g"
    proof (intro allI impI)
      fix g assume "(s0, g) \<in> move_rel\<^sup>*"
      with Nil have "g \<in> seen" by (rule bfs_inv_exhausted)
      then show "ENDPOINT \<notin> set g" using bfs_invD(5) [OF Nil] by simp
    qed
    then have "bfs_post s0 ([], None)" by (simp add: bfs_post_def)
    moreover have "run_loop 0 seen [] = Some ([], None)" by simp
    ultimately show ?case by blast
  next
    case (Cons e rest)
    obtain b h where e: "e = (b, h)" by (cases e)
    have inv: "bfs_inv s0 seen ((b, h) # rest)" using Cons.prems e by simp
    show ?case
    proof (cases "b \<in> seen")
      case True
      from inv True have "bfs_inv s0 seen rest" by (rule bfs_inv_skip)
      from Cons.IH [OF this] obtain fuel r where r: "run_loop fuel seen rest = Some r"
        and post: "bfs_post s0 r" by blast
      have "run_loop (Suc fuel) seen (e # rest) = Some r"
        using r True by (simp add: e run_step_skip)
      with post show ?thesis by blast
    next
      case False
      have hd_in: "(b, h) \<in> set ((b, h) # rest)" by simp
      from bfs_invD(2) [OF inv hd_in] have vp: "valid_path (h @ [b])" and hd: "hd (h @ [b]) = s0"
        by simp_all
      have reach: "(s0, b) \<in> move_rel\<^sup>*" using inv hd_in by (rule bfs_entry_reachable(2))
      have allib: "\<forall>s \<in> set (h @ [b]). in_bounds s"
        using vp hd ib by (intro valid_path_in_bounds) simp_all
      show ?thesis
      proof (cases "ENDPOINT \<in> set b")
        case True
        from boards_of_in_bounds [OF allib] obtain bs where bs: "boards_of (h @ [b]) = Inr bs"
          by blast
        let ?r = "(print_moves (h @ [b]) @ [DebugBoards bs], None)"
        have "run_step seen (b, h) rest = Finished ?r" using False True bs by (rule run_step_goal)
        then have run: "run_loop (Suc 0) seen (e # rest) = Some ?r" by (simp add: e)
        have least: "\<forall>n g. (s0, g) \<in> move_rel ^^ n \<and> ENDPOINT \<in> set g \<longrightarrow>
            length (h @ [b]) - 1 \<le> n"
        proof (intro allI impI)
          fix n g assume a: "(s0, g) \<in> move_rel ^^ n \<and> ENDPOINT \<in> set g"
          then have "g \<notin> seen" using bfs_invD(5) [OF inv, of g] by blast
          with inv have "length h \<le> n" using a by (intro bfs_popped_shortest [of s0 seen b h rest g n]) simp_all
          then show "length (h @ [b]) - 1 \<le> n" by simp
        qed
        have "bfs_post s0 ?r"
          unfolding bfs_post_def
          apply (rule disjI2)
          apply (rule exI [of _ "h @ [b]"])
          apply (rule exI [of _ bs])
          apply (intro conjI)
                apply (rule refl)
               apply simp
              apply (rule hd)
             apply (rule vp)
            apply (simp add: True)
           apply (rule bs)
          apply (rule least)
          done
        with run show ?thesis by blast
      next
        case ng: False
        have ibb: "in_bounds b" using allib by simp
        let ?seen = "insert b seen"
        let ?queue = "rest @ map (\<lambda>m. (m, h @ [b])) (fst (possible_moves b))"
        have step: "run_step seen (b, h) rest = Running ?seen ?queue"
          using False ng in_bounds_no_error [OF ibb] by (rule run_step_expand)
        have inv': "bfs_inv s0 ?seen ?queue" using inv False ng by (rule bfs_inv_expand)
        have "b \<in> ?R - seen" using reach False by simp
        moreover have "finite (?R - seen)" using fin by simp
        ultimately have "card ((?R - seen) - {b}) < card (?R - seen)" by (intro card_Diff1_less)
        moreover have "?R - ?seen = (?R - seen) - {b}" by blast
        ultimately have "card (?R - ?seen) < card (?R - seen)" by simp
        from less.hyps [OF this inv'] obtain fuel r
          where r: "run_loop fuel ?seen ?queue = Some r" and post: "bfs_post s0 r" by blast
        have "run_loop (Suc fuel) seen (e # rest) = Some r" using r step by (simp add: e)
        with post show ?thesis by blast
      qed
    qed
  qed
  from inner [OF less.prems] show ?case .
qed

lemma run_total:
  assumes "in_bounds s0"
  shows "\<exists>fuel r. (\<forall>fuel' \<ge> fuel. run fuel' s0 = Some r) \<and> bfs_post s0 r"
proof -
  from run_loop_total [OF assms bfs_inv_init] obtain fuel r
    where r: "run_loop fuel {} [(s0, [])] = Some r" and post: "bfs_post s0 r" by blast
  have "run fuel' s0 = Some r" if "fuel \<le> fuel'" for fuel'
  proof -
    from that obtain k where "fuel' = fuel + k" using le_Suc_ex by blast
    then show ?thesis using run_loop_more_fuel [OF r, of k] by (simp add: run_def)
  qed
  with post show ?thesis by blast
qed

subsection \<open>Reading the rows\<close>

lemma read_setup_Cons_ok:
  "read_setup to_int (row # rows) = Inr cars \<longleftrightarrow>
   (\<exists>c cs. cars = c # cs \<and> row_reads_as to_int row c \<and> read_setup to_int rows = Inr cs)"
proof
  assume a: "read_setup to_int (row # rows) = Inr cars"
  then obtain n sx sy ss d where row: "row = [n, sx, sy, ss, d]"
    by (auto split: list.splits)
  from a have d: "d = ''H'' \<or> d = ''V''" unfolding row by (auto split: if_splits)
  from a d obtain vx where vx: "to_int sx = Inr vx" unfolding row by (auto split: sum.splits)
  from a d vx obtain vy where vy: "to_int sy = Inr vy" unfolding row by (auto split: sum.splits)
  from a d vx vy obtain vs where vs: "to_int ss = Inr vs" unfolding row by (auto split: sum.splits)
  from a d vx vy vs obtain cs where cs: "read_setup to_int rows = Inr cs"
    unfolding row by (auto split: sum.splits)
  let ?c = "\<lparr>car_name = n, car_x = vx, car_y = vy, car_size = vs,
             car_direction = (if d = ''H'' then HORIZONTAL else VERTICAL)\<rparr>"
  have "cars = ?c # cs" using a d vx vy vs cs unfolding row by auto
  moreover have "row_reads_as to_int row ?c"
    unfolding row_reads_as_def row using d vx vy vs by auto
  ultimately show "\<exists>c cs. cars = c # cs \<and> row_reads_as to_int row c \<and> read_setup to_int rows = Inr cs"
    using cs by blast
next
  assume "\<exists>c cs. cars = c # cs \<and> row_reads_as to_int row c \<and> read_setup to_int rows = Inr cs"
  then obtain c cs sx sy ss d where cars: "cars = c # cs" and cs: "read_setup to_int rows = Inr cs"
    and row: "row = [car_name c, sx, sy, ss, d]"
    and f: "to_int sx = Inr (car_x c)" "to_int sy = Inr (car_y c)" "to_int ss = Inr (car_size c)"
    and d: "(d = ''H'' \<and> car_direction c = HORIZONTAL) \<or> (d = ''V'' \<and> car_direction c = VERTICAL)"
    unfolding row_reads_as_def by blast
  from d show "read_setup to_int (row # rows) = Inr cars"
    unfolding row cars using f cs by auto
qed

lemma read_setup_ok_iff:
  "read_setup to_int rows = Inr cars \<longleftrightarrow> list_all2 (row_reads_as to_int) rows cars"
proof (induction rows arbitrary: cars)
  case Nil
  show ?case by auto
next
  case (Cons row rows)
  show ?case unfolding read_setup_Cons_ok using Cons.IH by (auto simp: list_all2_Cons1)
qed

subsection \<open>Successors as single moves\<close>

lemma slides_cases:
  assumes "c' \<in> set (slides b c)"
  shows "c' = c\<lparr>car_y := car_y c + 1\<rparr> \<or> c' = c\<lparr>car_y := car_y c - 1\<rparr> \<or>
         c' = c\<lparr>car_x := car_x c + 1\<rparr> \<or> c' = c\<lparr>car_x := car_x c - 1\<rparr>"
  using assms by (cases "car_direction c") (auto simp: slides_def split: if_splits)

lemma possible_moves_single_move:
  assumes "t \<in> set (fst (possible_moves s))"
  shows "single_move s t"
proof -
  from possible_moves_sound [OF assms] obtain b k c' where k: "k < length s"
    and c': "c' \<in> set (slides b (s ! k))" and t: "t = s[k := c']"
    by blast
  have tk: "t ! k = c'" using k t by simp
  have others: "\<forall>i < length s. i \<noteq> k \<longrightarrow> t ! i = s ! i" using t by simp
  have keep: "car_name (t ! k) = car_name (s ! k)" "car_size (t ! k) = car_size (s ! k)"
    "car_direction (t ! k) = car_direction (s ! k)"
    using slides_keep [OF c'] tk by simp_all
  have pos: "(car_x (t ! k) \<noteq> car_x (s ! k) \<and> car_y (t ! k) = car_y (s ! k)) \<or>
             (car_x (t ! k) = car_x (s ! k) \<and> car_y (t ! k) \<noteq> car_y (s ! k))"
    unfolding tk using slides_cases [OF c'] by (elim disjE) simp_all
  have len: "length t = length s" by (simp add: t)
  show ?thesis
    unfolding single_move_def
    apply (intro conjI)
     apply (rule len)
    apply (rule exI [of _ k])
    apply (intro conjI)
         apply (rule k)
        apply (rule others)
       apply (rule keep(1))
      apply (rule keep(2))
     apply (rule keep(3))
    apply (rule pos)
    done
qed

lemma valid_path_nth:
  "valid_path p \<Longrightarrow> Suc i < length p \<Longrightarrow> p ! Suc i \<in> set (fst (possible_moves (p ! i)))"
proof (induction p arbitrary: i rule: valid_path.induct)
  case 1
  then show ?case by simp
next
  case (2 s)
  then show ?case by simp
next
  case (3 s t rest)
  show ?case
  proof (cases i)
    case 0
    then show ?thesis using "3.prems" by simp
  next
    case (Suc j)
    then show ?thesis using "3.prems" "3.IH" [of j] by simp
  qed
qed

lemma print_moves_length:
  assumes "\<forall>i. Suc i < length history \<longrightarrow> single_move (history ! i) (history ! Suc i)"
  shows "length (print_moves history) = Suc (length history - 1)"
proof -
  define g where "g = (\<lambda>i. pair_steps (history ! i) (history ! Suc i))"
  have "\<forall>i \<in> set [0..<length history - 1]. length (g i) = 1"
  proof
    fix i assume "i \<in> set [0..<length history - 1]"
    then have "Suc i < length history" by simp
    then have "single_move (history ! i) (history ! Suc i)" using assms by blast
    from single_move_steps [OF this] obtain l where "g i = [l]" unfolding g_def by blast
    then show "length (g i) = 1" by simp
  qed
  then have "concat (map g [0..<length history - 1]) = map (\<lambda>i. hd (g i)) [0..<length history - 1]"
    by (rule concat_singletons)
  then show ?thesis by (simp add: print_moves_def g_def)
qed

lemma print_moves_valid_path:
  assumes "valid_path p" and "p \<noteq> []"
  shows "length (print_moves p) = length p"
proof -
  have "\<forall>i. Suc i < length p \<longrightarrow> single_move (p ! i) (p ! Suc i)"
    using assms(1) by (auto intro: possible_moves_single_move valid_path_nth)
  from print_moves_length [OF this] show ?thesis using assms(2) by (cases p) simp_all
qed

subsection \<open>The solver on examples\<close>

lemma run_goal_at_start:
  "run 1 [ENDPOINT] =
   Some
    ([TotalSteps 0,
      DebugBoards
       [[['' '', '' '', '' '', '' '', '' '', '' ''],
         ['' '', '' '', '' '', '' '', '' '', '' ''],
         ['' '', '' '', '' '', '' '', ''r'', ''r''],
         ['' '', '' '', '' '', '' '', '' '', '' ''],
         ['' '', '' '', '' '', '' '', '' '', '' ''],
         ['' '', '' '', '' '', '' '', '' '', '' '']]]],
     None)"
  by code_simp

lemma run_two_cars:
  "run 2 two_cars =
   Some
    ([TotalSteps 1, Right ''r'',
      DebugBoards
       [[['' '', '' '', '' '', '' '', '' '', '' ''],
         ['' '', '' '', '' '', '' '', '' '', '' ''],
         ['' '', '' '', '' '', ''r'', ''r'', '' ''],
         ['' '', '' '', '' '', '' '', '' '', ''b''],
         ['' '', '' '', '' '', '' '', '' '', ''b''],
         ['' '', '' '', '' '', '' '', '' '', '' '']],
        [['' '', '' '', '' '', '' '', '' '', '' ''],
         ['' '', '' '', '' '', '' '', '' '', '' ''],
         ['' '', '' '', '' '', '' '', ''r'', ''r''],
         ['' '', '' '', '' '', '' '', '' '', ''b''],
         ['' '', '' '', '' '', '' '', '' '', ''b''],
         ['' '', '' '', '' '', '' '', '' '', '' '']]]],
     None)"
  by code_simp

lemma run_lone_car: "run 9 lone_car = Some ([], None) \<and> run 8 lone_car = None"
  by code_simp

subsection \<open>The search over the successors of the generator\<close>

lemma run_shortest_over_generator:
  assumes "in_bounds initial_cars"
    and "\<exists>g. (initial_cars, g) \<in> move_rel\<^sup>* \<and> ENDPOINT \<in> set g"
  shows "\<exists>fuel path bs.
     (\<forall>fuel' \<ge> fuel. run fuel' initial_cars = Some (print_moves path @ [DebugBoards bs], None)) \<and>
     path \<noteq> [] \<and> hd path = initial_cars \<and> valid_path path \<and> ENDPOINT \<in> set (last path) \<and>
     hd (print_moves path) = TotalSteps (int (length path) - 1) \<and>
     length (print_moves path) = length path \<and>
     (initial_cars, last path) \<in> move_rel ^^ (length path - 1) \<and>
     (\<forall>n g. (initial_cars, g) \<in> move_rel ^^ n \<and> ENDPOINT \<in> set g \<longrightarrow> length path - 1 \<le> n)"
proof -
  from run_total [OF assms(1)] obtain fuel r
    where run: "\<forall>fuel' \<ge> fuel. run fuel' initial_cars = Some r" and post: "bfs_post initial_cars r"
    by blast
  from assms(2) have "\<not> (\<forall>g. (initial_cars, g) \<in> move_rel\<^sup>* \<longrightarrow> ENDPOINT \<notin> set g)" by blast
  with post obtain path bs where r: "r = (print_moves path @ [DebugBoards bs], None)"
    and ne: "path \<noteq> []" and hd: "hd path = initial_cars" and vp: "valid_path path"
    and goal: "ENDPOINT \<in> set (last path)"
    and least: "\<forall>n g. (initial_cars, g) \<in> move_rel ^^ n \<and> ENDPOINT \<in> set g \<longrightarrow>
                  length path - 1 \<le> n"
    unfolding bfs_post_def by blast
  have total: "hd (print_moves path) = TotalSteps (int (length path) - 1)"
    by (simp add: print_moves_def)
  have lines: "length (print_moves path) = length path"
    using vp ne by (rule print_moves_valid_path)
  have "(hd path, last path) \<in> move_rel ^^ (length path - 1)"
    using ne vp by (rule valid_path_relpow)
  then have pw: "(initial_cars, last path) \<in> move_rel ^^ (length path - 1)" using hd by simp
  show ?thesis
    apply (rule exI [of _ fuel])
    apply (rule exI [of _ path])
    apply (rule exI [of _ bs])
    apply (intro conjI)
           apply (rule run [unfolded r])
          apply (rule ne)
         apply (rule hd)
        apply (rule vp)
       apply (rule goal)
       apply (rule total)
      apply (rule lines)
     apply (rule pw)
    apply (rule least)
    done
qed

lemma run_silent_over_generator:
  assumes "in_bounds initial_cars"
    and "\<forall>g. (initial_cars, g) \<in> move_rel\<^sup>* \<longrightarrow> ENDPOINT \<notin> set g"
  shows "\<exists>fuel. (\<forall>fuel' \<ge> fuel. run fuel' initial_cars = Some ([], None)) \<and>
                ([], None) \<noteq> (print_moves path @ log, e)"
proof -
  from run_total [OF assms(1)] obtain fuel r
    where run: "\<forall>fuel' \<ge> fuel. run fuel' initial_cars = Some r" and post: "bfs_post initial_cars r"
    by blast
  have "r = ([], None)"
  proof (rule ccontr)
    assume "r \<noteq> ([], None)"
    with post obtain p where ne: "p \<noteq> []" and hd: "hd p = initial_cars" and vp: "valid_path p"
      and goal: "ENDPOINT \<in> set (last p)"
      unfolding bfs_post_def by blast
    have "(hd p, last p) \<in> move_rel ^^ (length p - 1)" using ne vp by (rule valid_path_relpow)
    then have "(initial_cars, last p) \<in> move_rel\<^sup>*" using hd relpow_imp_rtrancl by simp
    with assms(2) goal show False by blast
  qed
  moreover have "([], None) \<noteq> (print_moves path @ log, e)"
    by (simp add: print_moves_def)
  ultimately show ?thesis using run by blast
qed

subsection \<open>The generator and the legal moves\<close>

lemma cell_is_empty_unoccupied:
  assumes b: "get_board s = Inr b" and ib: "in_bounds s" and nb: "no_blank_name s"
    and g: "in_grid (r, c)"
  shows "cell_is_empty b r c = Inr (\<not> occupied s (r, c))"
proof -
  have sh: "shape b" using b by (rule get_board_shape)
  have grid: "\<forall>c \<in> set s. \<forall>p \<in> set (footprint c). in_grid p"
    using ib by (simp add: in_bounds_def in_bounds_car_def)
  have nm: "\<forall>c \<in> set s. car_name c \<noteq> EMPTY_CELL" using nb by (simp add: no_blank_name_def)
  have r: "nat r < 6" "nat c < 6" and pp: "(int (nat r), int (nat c)) = (r, c)"
    using g by (auto simp: in_grid_def BOARD_SIZE_def)
  from get_board_empty_iff [OF b grid nm r]
  have "b ! nat r ! nat c = EMPTY_CELL \<longleftrightarrow> \<not> occupied s (r, c)"
    unfolding pp occupied_def by simp
  with cell_is_empty_in_grid [OF sh g] show ?thesis by simp
qed

lemma slides_eq_legal_slides:
  assumes b: "get_board s = Inr b" and ib: "in_bounds s" and nb: "no_blank_name s"
    and c: "c \<in> set s"
  shows "slides b c = legal_slides s c"
proof -
  have ibc: "in_bounds_car c" using ib c by (simp add: in_bounds_def)
  then have "car_direction c = HORIZONTAL \<or> car_direction c = VERTICAL"
    by (simp add: in_bounds_car_def)
  then show ?thesis
  proof
    assume H: "car_direction c = HORIZONTAL"
    have bd: "1 \<le> car_size c" "0 \<le> car_x c" "car_x c < 6" "0 \<le> car_y c" "car_y c + car_size c \<le> 6"
      using ibc in_bounds_car_H [OF H] by simp_all
    have r: "(car_y c + car_size c < BOARD_SIZE \<and>
              cell_is_empty b (car_x c) (car_y c + car_size c) = Inr True) \<longleftrightarrow>
             (car_y c + car_size c < BOARD_SIZE \<and> \<not> occupied s (car_x c, car_y c + car_size c))"
    proof (cases "car_y c + car_size c < BOARD_SIZE")
      case True
      then have "in_grid (car_x c, car_y c + car_size c)"
        using bd by (simp add: in_grid_def BOARD_SIZE_def)
      from cell_is_empty_unoccupied [OF b ib nb this] show ?thesis by simp
    next
      case False
      then show ?thesis by simp
    qed
    have l: "(car_y c > 0 \<and> cell_is_empty b (car_x c) (car_y c - 1) = Inr True) \<longleftrightarrow>
             (car_y c > 0 \<and> \<not> occupied s (car_x c, car_y c - 1))"
    proof (cases "car_y c > 0")
      case True
      then have "in_grid (car_x c, car_y c - 1)"
        using bd by (simp add: in_grid_def BOARD_SIZE_def)
      from cell_is_empty_unoccupied [OF b ib nb this] show ?thesis by simp
    next
      case False
      then show ?thesis by simp
    qed
    show ?thesis using H by (simp add: slides_def legal_slides_def r l)
  next
    assume V: "car_direction c = VERTICAL"
    have bd: "1 \<le> car_size c" "0 \<le> car_y c" "car_y c < 6" "0 \<le> car_x c" "car_x c + car_size c \<le> 6"
      using ibc in_bounds_car_V [OF V] by simp_all
    have r: "(car_x c + car_size c < BOARD_SIZE \<and>
              cell_is_empty b (car_x c + car_size c) (car_y c) = Inr True) \<longleftrightarrow>
             (car_x c + car_size c < BOARD_SIZE \<and> \<not> occupied s (car_x c + car_size c, car_y c))"
    proof (cases "car_x c + car_size c < BOARD_SIZE")
      case True
      then have "in_grid (car_x c + car_size c, car_y c)"
        using bd by (simp add: in_grid_def BOARD_SIZE_def)
      from cell_is_empty_unoccupied [OF b ib nb this] show ?thesis by simp
    next
      case False
      then show ?thesis by simp
    qed
    have l: "(car_x c > 0 \<and> cell_is_empty b (car_x c - 1) (car_y c) = Inr True) \<longleftrightarrow>
             (car_x c > 0 \<and> \<not> occupied s (car_x c - 1, car_y c))"
    proof (cases "car_x c > 0")
      case True
      then have "in_grid (car_x c - 1, car_y c)"
        using bd by (simp add: in_grid_def BOARD_SIZE_def)
      from cell_is_empty_unoccupied [OF b ib nb this] show ?thesis by simp
    next
      case False
      then show ?thesis by simp
    qed
    show ?thesis using V by (simp add: slides_def legal_slides_def r l)
  qed
qed

lemma possible_moves_legal:
  assumes ib: "in_bounds s" and nb: "no_blank_name s"
  shows "possible_moves s = (legal_moves s, None)"
proof -
  from in_bounds_get_board [OF ib] obtain b where b: "get_board s = Inr b" by blast
  have "map (\<lambda>(k, c). map (\<lambda>c'. s[k := c']) (slides b c)) (enumerate 0 s) =
        map (\<lambda>(k, c). map (\<lambda>c'. s[k := c']) (legal_slides s c)) (enumerate 0 s)"
  proof (rule map_cong [OF refl])
    fix e assume a: "e \<in> set (enumerate 0 s)"
    obtain k c where e: "e = (k, c)" by (cases e)
    have "k < length s" and "c = s ! k" using a unfolding e in_set_enumerate_eq by simp_all
    then have "c \<in> set s" by simp
    then have "slides b c = legal_slides s c" using slides_eq_legal_slides [OF b ib nb] by simp
    then show "(case e of (k, c) \<Rightarrow> map (\<lambda>c'. s[k := c']) (slides b c)) =
               (case e of (k, c) \<Rightarrow> map (\<lambda>c'. s[k := c']) (legal_slides s c))"
      by (simp add: e)
  qed
  then have "concat (map (\<lambda>(k, c). map (\<lambda>c'. s[k := c']) (slides b c)) (enumerate 0 s)) =
        legal_moves s"
    unfolding legal_moves_def by (rule arg_cong)
  then show ?thesis unfolding possible_moves_exact [OF ib b] by (rule arg_cong)
qed

lemma no_blank_name_step:
  assumes "t \<in> set (fst (possible_moves s))" and "no_blank_name s"
  shows "no_blank_name t"
  unfolding no_blank_name_def
proof
  fix c assume "c \<in> set t"
  then obtain i where i: "i < length t" and c: "c = t ! i" by (auto simp: in_set_conv_nth)
  have lay: "same_layout s t" using assms(1) by (rule possible_moves_layout)
  then have i': "i < length s" and "car_name (t ! i) = car_name (s ! i)"
    using i by (simp_all add: same_layout_def)
  moreover have "s ! i \<in> set s" using i' by simp
  ultimately show "car_name c \<noteq> EMPTY_CELL" using assms(2) c by (simp add: no_blank_name_def)
qed

lemma no_blank_name_reachable:
  "(s0, s) \<in> move_rel\<^sup>* \<Longrightarrow> no_blank_name s0 \<Longrightarrow> no_blank_name s"
proof (induction rule: rtrancl_induct)
  case base
  then show ?case by simp
next
  case (step t u)
  have "u \<in> set (fst (possible_moves t))" using step.hyps(2) by (simp add: move_rel_def)
  moreover have "no_blank_name t" using step by simp
  ultimately show ?case by (rule no_blank_name_step)
qed

lemma move_rel_legal_rel:
  "in_bounds s \<Longrightarrow> no_blank_name s \<Longrightarrow> (s, t) \<in> move_rel \<longleftrightarrow> (s, t) \<in> legal_rel"
  by (simp add: move_rel_def legal_rel_def possible_moves_legal)

lemma relpow_move_legal:
  assumes ib: "in_bounds s0" and nb: "no_blank_name s0"
  shows "(s0, g) \<in> move_rel ^^ n \<longleftrightarrow> (s0, g) \<in> legal_rel ^^ n"
proof (induction n arbitrary: g)
  case 0
  show ?case by simp
next
  case (Suc n)
  show ?case
  proof
    assume "(s0, g) \<in> move_rel ^^ Suc n"
    then obtain u where u: "(s0, u) \<in> move_rel ^^ n" and ug: "(u, g) \<in> move_rel"
      by (rule relpow_Suc_E)
    have r: "(s0, u) \<in> move_rel\<^sup>*" using u by (rule relpow_imp_rtrancl)
    have "in_bounds u" using r ib by (rule in_bounds_reachable)
    moreover have "no_blank_name u" using r nb by (rule no_blank_name_reachable)
    ultimately have "in_bounds u" "no_blank_name u" by simp_all
    then have "(u, g) \<in> legal_rel" using ug move_rel_legal_rel by simp
    moreover have "(s0, u) \<in> legal_rel ^^ n" using u Suc.IH by simp
    ultimately show "(s0, g) \<in> legal_rel ^^ Suc n" by (intro relpow_Suc_I)
  next
    assume "(s0, g) \<in> legal_rel ^^ Suc n"
    then obtain u where u: "(s0, u) \<in> legal_rel ^^ n" and ug: "(u, g) \<in> legal_rel"
      by (rule relpow_Suc_E)
    have um: "(s0, u) \<in> move_rel ^^ n" using u Suc.IH by simp
    then have r: "(s0, u) \<in> move_rel\<^sup>*" by (rule relpow_imp_rtrancl)
    have "in_bounds u" using r ib by (rule in_bounds_reachable)
    moreover have "no_blank_name u" using r nb by (rule no_blank_name_reachable)
    ultimately have "in_bounds u" "no_blank_name u" by simp_all
    then have "(u, g) \<in> move_rel" using ug move_rel_legal_rel by simp
    with um show "(s0, g) \<in> move_rel ^^ Suc n" by (intro relpow_Suc_I)
  qed
qed

lemma rtrancl_move_legal:
  assumes "in_bounds s0" and "no_blank_name s0"
  shows "(s0, g) \<in> move_rel\<^sup>* \<longleftrightarrow> (s0, g) \<in> legal_rel\<^sup>*"
  unfolding rtrancl_power using relpow_move_legal [OF assms] by simp

lemma valid_path_legal_path:
  "valid_path p \<Longrightarrow> p \<noteq> [] \<Longrightarrow> in_bounds (hd p) \<Longrightarrow> no_blank_name (hd p) \<Longrightarrow> legal_path p"
proof (induction p rule: valid_path.induct)
  case 1
  then show ?case by simp
next
  case (2 s)
  then show ?case by simp
next
  case (3 s t rest)
  have t: "t \<in> set (fst (possible_moves s))" and vp: "valid_path (t # rest)"
    using "3.prems"(1) by simp_all
  have ib: "in_bounds s" and nb: "no_blank_name s" using "3.prems"(3,4) by simp_all
  have "t \<in> set (legal_moves s)" using t by (simp add: possible_moves_legal [OF ib nb])
  moreover have "in_bounds t" using ib t by (rule in_bounds_step)
  moreover have "no_blank_name t" using t nb by (rule no_blank_name_step)
  ultimately show ?case using "3.IH" vp by simp
qed

lemma valid_path_reachable:
  "valid_path p \<Longrightarrow> s \<in> set p \<Longrightarrow> (hd p, s) \<in> move_rel\<^sup>*"
proof (induction p rule: valid_path.induct)
  case 1
  then show ?case by simp
next
  case (2 a)
  then show ?case by simp
next
  case (3 a t rest)
  show ?case
  proof (cases "s = a")
    case True
    then show ?thesis by simp
  next
    case False
    then have "s \<in> set (t # rest)" using "3.prems"(2) by simp
    moreover have "valid_path (t # rest)" using "3.prems"(1) by simp
    ultimately have "(t, s) \<in> move_rel\<^sup>*" using "3.IH" by simp
    moreover have "(a, t) \<in> move_rel" using "3.prems"(1) by (simp add: move_rel_def)
    ultimately show ?thesis by simp
  qed
qed

subsection \<open>The legal moves, spelled out\<close>

lemma legal_slides_member:
  "c' \<in> set (legal_slides s c) \<longleftrightarrow>
    (car_direction c = HORIZONTAL \<and> car_y c + car_size c < 6 \<and>
       \<not> occupied s (car_x c, car_y c + car_size c) \<and> c' = c\<lparr>car_y := car_y c + 1\<rparr>) \<or>
    (car_direction c = HORIZONTAL \<and> car_y c > 0 \<and>
       \<not> occupied s (car_x c, car_y c - 1) \<and> c' = c\<lparr>car_y := car_y c - 1\<rparr>) \<or>
    (car_direction c = VERTICAL \<and> car_x c + car_size c < 6 \<and>
       \<not> occupied s (car_x c + car_size c, car_y c) \<and> c' = c\<lparr>car_x := car_x c + 1\<rparr>) \<or>
    (car_direction c = VERTICAL \<and> car_x c > 0 \<and>
       \<not> occupied s (car_x c - 1, car_y c) \<and> c' = c\<lparr>car_x := car_x c - 1\<rparr>)"
proof (cases "car_direction c")
  case HORIZONTAL
  then show ?thesis by (simp add: legal_slides_def BOARD_SIZE_def) blast
next
  case VERTICAL
  then show ?thesis by (simp add: legal_slides_def BOARD_SIZE_def) blast
next
  case (Other k)
  then show ?thesis by (simp add: legal_slides_def)
qed

lemma legal_moves_member:
  "t \<in> set (legal_moves s) \<longleftrightarrow>
   (\<exists>k < length s. \<exists>c' \<in> set (legal_slides s (s ! k)). t = s[k := c'])"
proof
  assume "t \<in> set (legal_moves s)"
  then obtain e where e: "e \<in> set (enumerate 0 s)"
    and t: "t \<in> set (case e of (k, c) \<Rightarrow> map (\<lambda>c'. s[k := c']) (legal_slides s c))"
    unfolding legal_moves_def by auto
  obtain k c where kc: "e = (k, c)" by (cases e)
  have k: "k < length s" and c: "c = s ! k" using e unfolding kc in_set_enumerate_eq by simp_all
  from t obtain c' where "c' \<in> set (legal_slides s (s ! k))" and "t = s[k := c']"
    unfolding kc c by auto
  with k show "\<exists>k < length s. \<exists>c' \<in> set (legal_slides s (s ! k)). t = s[k := c']" by blast
next
  assume "\<exists>k < length s. \<exists>c' \<in> set (legal_slides s (s ! k)). t = s[k := c']"
  then obtain k c' where k: "k < length s" and c': "c' \<in> set (legal_slides s (s ! k))"
    and t: "t = s[k := c']" by blast
  have "(k, s ! k) \<in> set (enumerate 0 s)" using k by (simp add: in_set_enumerate_eq)
  then show "t \<in> set (legal_moves s)" unfolding legal_moves_def using c' t by force
qed

lemma legal_moves_explicit:
  "t \<in> set (legal_moves cars) \<longleftrightarrow>
       (\<exists>k < length cars.
          (car_direction (cars ! k) = HORIZONTAL \<and>
           car_y (cars ! k) + car_size (cars ! k) < 6 \<and>
           \<not> occupied cars (car_x (cars ! k), car_y (cars ! k) + car_size (cars ! k)) \<and>
           t = cars[k := (cars ! k)\<lparr>car_y := car_y (cars ! k) + 1\<rparr>]) \<or>
          (car_direction (cars ! k) = HORIZONTAL \<and>
           car_y (cars ! k) > 0 \<and>
           \<not> occupied cars (car_x (cars ! k), car_y (cars ! k) - 1) \<and>
           t = cars[k := (cars ! k)\<lparr>car_y := car_y (cars ! k) - 1\<rparr>]) \<or>
          (car_direction (cars ! k) = VERTICAL \<and>
           car_x (cars ! k) + car_size (cars ! k) < 6 \<and>
           \<not> occupied cars (car_x (cars ! k) + car_size (cars ! k), car_y (cars ! k)) \<and>
           t = cars[k := (cars ! k)\<lparr>car_x := car_x (cars ! k) + 1\<rparr>]) \<or>
          (car_direction (cars ! k) = VERTICAL \<and>
           car_x (cars ! k) > 0 \<and>
           \<not> occupied cars (car_x (cars ! k) - 1, car_y (cars ! k)) \<and>
           t = cars[k := (cars ! k)\<lparr>car_x := car_x (cars ! k) - 1\<rparr>]))"
  (is "_ \<longleftrightarrow> (\<exists>k < length cars. ?legal k)")
proof -
  have one: "(\<exists>c' \<in> set (legal_slides cars (cars ! k)). t = cars[k := c']) \<longleftrightarrow> ?legal k" for k
  proof
    assume "\<exists>c' \<in> set (legal_slides cars (cars ! k)). t = cars[k := c']"
    then obtain c' where c': "c' \<in> set (legal_slides cars (cars ! k))" and t: "t = cars[k := c']"
      by blast
    from c' [unfolded legal_slides_member] show "?legal k"
      unfolding t by (elim disjE conjE) simp_all
  next
    assume "?legal k"
    then show "\<exists>c' \<in> set (legal_slides cars (cars ! k)). t = cars[k := c']"
    proof (elim disjE)
      assume a: "car_direction (cars ! k) = HORIZONTAL \<and>
           car_y (cars ! k) + car_size (cars ! k) < 6 \<and>
           \<not> occupied cars (car_x (cars ! k), car_y (cars ! k) + car_size (cars ! k)) \<and>
           t = cars[k := (cars ! k)\<lparr>car_y := car_y (cars ! k) + 1\<rparr>]"
      then have "(cars ! k)\<lparr>car_y := car_y (cars ! k) + 1\<rparr> \<in> set (legal_slides cars (cars ! k))"
        unfolding legal_slides_member by simp
      with a show ?thesis by (intro bexI) simp_all
    next
      assume a: "car_direction (cars ! k) = HORIZONTAL \<and>
           car_y (cars ! k) > 0 \<and>
           \<not> occupied cars (car_x (cars ! k), car_y (cars ! k) - 1) \<and>
           t = cars[k := (cars ! k)\<lparr>car_y := car_y (cars ! k) - 1\<rparr>]"
      then have "(cars ! k)\<lparr>car_y := car_y (cars ! k) - 1\<rparr> \<in> set (legal_slides cars (cars ! k))"
        unfolding legal_slides_member by simp
      with a show ?thesis by (intro bexI) simp_all
    next
      assume a: "car_direction (cars ! k) = VERTICAL \<and>
           car_x (cars ! k) + car_size (cars ! k) < 6 \<and>
           \<not> occupied cars (car_x (cars ! k) + car_size (cars ! k), car_y (cars ! k)) \<and>
           t = cars[k := (cars ! k)\<lparr>car_x := car_x (cars ! k) + 1\<rparr>]"
      then have "(cars ! k)\<lparr>car_x := car_x (cars ! k) + 1\<rparr> \<in> set (legal_slides cars (cars ! k))"
        unfolding legal_slides_member by simp
      with a show ?thesis by (intro bexI) simp_all
    next
      assume a: "car_direction (cars ! k) = VERTICAL \<and>
           car_x (cars ! k) > 0 \<and>
           \<not> occupied cars (car_x (cars ! k) - 1, car_y (cars ! k)) \<and>
           t = cars[k := (cars ! k)\<lparr>car_x := car_x (cars ! k) - 1\<rparr>]"
      then have "(cars ! k)\<lparr>car_x := car_x (cars ! k) - 1\<rparr> \<in> set (legal_slides cars (cars ! k))"
        unfolding legal_slides_member by simp
      with a show ?thesis by (intro bexI) simp_all
    qed
  qed
  show ?thesis unfolding legal_moves_member
  proof
    assume "\<exists>k < length cars. \<exists>c' \<in> set (legal_slides cars (cars ! k)). t = cars[k := c']"
    then obtain k where k: "k < length cars"
      and e: "\<exists>c' \<in> set (legal_slides cars (cars ! k)). t = cars[k := c']" by blast
    from one [THEN iffD1, OF e] k show "\<exists>k < length cars. ?legal k"
      by (intro exI conjI)
  next
    assume "\<exists>k < length cars. ?legal k"
    then obtain k where k: "k < length cars" and l: "?legal k" by (elim exE conjE)
    from one [THEN iffD2, OF l] k
    show "\<exists>k < length cars. \<exists>c' \<in> set (legal_slides cars (cars ! k)). t = cars[k := c']"
      by (intro exI conjI)
  qed
qed

lemma legal_after_relpow: "g \<in> set (legal_after n s) \<longleftrightarrow> (s, g) \<in> legal_rel ^^ n"
proof (induction n arbitrary: g)
  case 0
  show ?case by auto
next
  case (Suc n)
  have "g \<in> set (legal_after (Suc n) s) \<longleftrightarrow> (\<exists>t \<in> set (legal_after n s). g \<in> set (legal_moves t))"
    by simp
  also have "\<dots> \<longleftrightarrow> (\<exists>t. (s, t) \<in> legal_rel ^^ n \<and> (t, g) \<in> legal_rel)"
    using Suc.IH by (simp add: legal_rel_def Bex_def)
  also have "\<dots> \<longleftrightarrow> (s, g) \<in> legal_rel ^^ Suc n" by auto
  finally show ?case .
qed

lemma legal_path_relpow:
  "legal_path p \<Longrightarrow> p \<noteq> [] \<Longrightarrow> (hd p, last p) \<in> legal_rel ^^ (length p - 1)"
proof (induction p rule: legal_path.induct)
  case 1
  then show ?case by simp
next
  case (2 s)
  then show ?case by simp
next
  case (3 s t rest)
  then have st: "(s, t) \<in> legal_rel" and r: "(t, last (t # rest)) \<in> legal_rel ^^ length rest"
    by (simp_all add: legal_rel_def)
  then have "(s, last (t # rest)) \<in> legal_rel ^^ Suc (length rest)"
    by (meson relpow_Suc_I2)
  then show ?case by simp
qed

subsection \<open>The legal moves and the solver on examples\<close>

lemma blank_blocker_legal_moves:
  "legal_moves blank_blocker =
     [[\<lparr>car_name = ''r'', car_x = 2, car_y = 2, car_size = 2, car_direction = HORIZONTAL\<rparr>,
       \<lparr>car_name = '' '', car_x = 0, car_y = 5, car_size = 3, car_direction = VERTICAL\<rparr>],
      [\<lparr>car_name = ''r'', car_x = 2, car_y = 3, car_size = 2, car_direction = HORIZONTAL\<rparr>,
       \<lparr>car_name = '' '', car_x = 1, car_y = 5, car_size = 3, car_direction = VERTICAL\<rparr>]]"
  by code_simp

lemma run_blank_blocker:
  "run 2 blank_blocker =
   Some
    ([TotalSteps 1, Right ''r'',
      DebugBoards
       [[['' '', '' '', '' '', '' '', '' '', '' ''],
         ['' '', '' '', '' '', '' '', '' '', '' ''],
         ['' '', '' '', '' '', ''r'', ''r'', '' ''],
         ['' '', '' '', '' '', '' '', '' '', '' ''],
         ['' '', '' '', '' '', '' '', '' '', '' ''],
         ['' '', '' '', '' '', '' '', '' '', '' '']],
        [['' '', '' '', '' '', '' '', '' '', '' ''],
         ['' '', '' '', '' '', '' '', '' '', '' ''],
         ['' '', '' '', '' '', '' '', ''r'', '' ''],
         ['' '', '' '', '' '', '' '', '' '', '' ''],
         ['' '', '' '', '' '', '' '', '' '', '' ''],
         ['' '', '' '', '' '', '' '', '' '', '' '']]]],
     None)"
  by code_simp

lemma blank_blocker_no_short_solution:
  "list_all (\<lambda>n. list_all (\<lambda>g. ENDPOINT \<notin> set g) (legal_after n blank_blocker)) [0, 1, 2, 3]"
  by code_simp

lemma blocker_path_legal:
  "legal_path blocker_path \<and> hd blocker_path = blank_blocker \<and>
   ENDPOINT \<in> set (last blocker_path) \<and> length blocker_path = 5"
  by code_simp

lemma blank_wall_legal_moves: "legal_moves blank_wall = []"
  by code_simp

lemma run_blank_wall:
  "run 2 blank_wall =
   Some
    ([TotalSteps 1, Right ''r'',
      DebugBoards
       [[['' '', '' '', '' '', '' '', '' '', '' ''],
         ['' '', '' '', '' '', '' '', '' '', '' ''],
         [''u'', ''u'', ''u'', ''r'', ''r'', '' ''],
         ['' '', '' '', '' '', '' '', '' '', ''t''],
         ['' '', '' '', '' '', '' '', '' '', ''t''],
         ['' '', '' '', '' '', '' '', '' '', ''t'']],
        [['' '', '' '', '' '', '' '', '' '', '' ''],
         ['' '', '' '', '' '', '' '', '' '', '' ''],
         [''u'', ''u'', ''u'', '' '', ''r'', '' ''],
         ['' '', '' '', '' '', '' '', '' '', ''t''],
         ['' '', '' '', '' '', '' '', '' '', ''t''],
         ['' '', '' '', '' '', '' '', '' '', ''t'']]]],
     None)"
  by code_simp

lemma two_cars_legal_moves:
  "legal_moves two_cars =
     [[\<lparr>car_name = ''r'', car_x = 2, car_y = 4, car_size = 2, car_direction = HORIZONTAL\<rparr>,
       \<lparr>car_name = ''b'', car_x = 3, car_y = 5, car_size = 2, car_direction = VERTICAL\<rparr>],
      [\<lparr>car_name = ''r'', car_x = 2, car_y = 2, car_size = 2, car_direction = HORIZONTAL\<rparr>,
       \<lparr>car_name = ''b'', car_x = 3, car_y = 5, car_size = 2, car_direction = VERTICAL\<rparr>],
      [\<lparr>car_name = ''r'', car_x = 2, car_y = 3, car_size = 2, car_direction = HORIZONTAL\<rparr>,
       \<lparr>car_name = ''b'', car_x = 4, car_y = 5, car_size = 2, car_direction = VERTICAL\<rparr>],
      [\<lparr>car_name = ''r'', car_x = 2, car_y = 3, car_size = 2, car_direction = HORIZONTAL\<rparr>,
       \<lparr>car_name = ''b'', car_x = 2, car_y = 5, car_size = 2, car_direction = VERTICAL\<rparr>]]"
  by code_simp

lemma blank_name_legal_moves:
  "legal_moves blank_name_example =
     [[\<lparr>car_name = '' '', car_x = 0, car_y = 3, car_size = 2, car_direction = HORIZONTAL\<rparr>,
       \<lparr>car_name = ''a'', car_x = 0, car_y = 0, car_size = 2, car_direction = HORIZONTAL\<rparr>]]"
  by code_simp

lemma well_formed_exec:
  "well_formed cars \<longleftrightarrow>
     list_all (\<lambda>c. list_all in_grid (footprint c)) cars \<and>
     list_all (\<lambda>i. list_all (\<lambda>j. i = j \<or>
         list_all (\<lambda>p. p \<notin> set (footprint (cars ! j))) (footprint (cars ! i)))
       [0..<length cars]) [0..<length cars]"
proof -
  have "set (footprint (cars ! i)) \<inter> set (footprint (cars ! j)) = {} \<longleftrightarrow>
        (\<forall>p \<in> set (footprint (cars ! i)). p \<notin> set (footprint (cars ! j)))" for i j
    by blast
  then show ?thesis
    unfolding well_formed_def list_all_iff by (simp add: Ball_def) blast
qed

lemma in_bounds_exec:
  "in_bounds cars \<longleftrightarrow>
     list_all (\<lambda>c. (car_direction c = HORIZONTAL \<or> car_direction c = VERTICAL) \<and>
                   1 \<le> car_size c \<and> list_all in_grid (footprint c)) cars"
  unfolding in_bounds_def in_bounds_car_def list_all_iff by auto

lemma blank_examples_well_formed:
  "well_formed blank_blocker \<and> in_bounds blank_blocker \<and> distinct (map car_name blank_blocker) \<and>
   well_formed blank_wall \<and> in_bounds blank_wall \<and> distinct (map car_name blank_wall) \<and>
   well_formed blank_name_example \<and> in_bounds blank_name_example \<and>
   distinct (map car_name blank_name_example) \<and>
   well_formed lone_car \<and> in_bounds lone_car \<and> well_formed two_cars \<and> in_bounds two_cars"
  unfolding well_formed_exec in_bounds_exec by code_simp

lemma lone_car_unsolvable: "(lone_car, g) \<in> move_rel\<^sup>* \<Longrightarrow> ENDPOINT \<notin> set g"
proof
  assume "(lone_car, g) \<in> move_rel\<^sup>*"
  then have lay: "same_layout lone_car g" by (rule reachable_layout)
  assume "ENDPOINT \<in> set g"
  then obtain i where i: "i < length g" and gi: "g ! i = ENDPOINT"
    by (auto simp: in_set_conv_nth)
  have "i < length lone_car" using i lay by (simp add: same_layout_def)
  then have "car_name (g ! i) = car_name (lone_car ! i)" and "i = 0"
    using lay by (simp_all add: same_layout_def lone_car_def)
  then show False using gi by (simp add: lone_car_def ENDPOINT_def)
qed

lemma lone_car_legal_unsolvable: "(lone_car, g) \<in> legal_rel\<^sup>* \<Longrightarrow> ENDPOINT \<notin> set g"
proof -
  assume a: "(lone_car, g) \<in> legal_rel\<^sup>*"
  have ib: "in_bounds lone_car" using blank_examples_well_formed by simp
  have nb: "no_blank_name lone_car" by (simp add: no_blank_name_def lone_car_def EMPTY_CELL_def)
  from a have "(lone_car, g) \<in> move_rel\<^sup>*" by (simp add: rtrancl_move_legal [OF ib nb])
  then show ?thesis by (rule lone_car_unsolvable)
qed

lemma blank_wall_stuck: "(blank_wall, g) \<in> legal_rel\<^sup>* \<Longrightarrow> g = blank_wall"
proof (erule converse_rtranclE)
  assume "blank_wall = g"
  then show ?thesis by simp
next
  fix t assume "(blank_wall, t) \<in> legal_rel"
  then show ?thesis by (simp add: legal_rel_def blank_wall_legal_moves)
qed

lemma two_cars_legal_step:
  "(two_cars,
    [\<lparr>car_name = ''r'', car_x = 2, car_y = 4, car_size = 2, car_direction = HORIZONTAL\<rparr>,
     \<lparr>car_name = ''b'', car_x = 3, car_y = 5, car_size = 2, car_direction = VERTICAL\<rparr>])
   \<in> legal_rel"
  by (simp add: legal_rel_def two_cars_legal_moves)

lemma two_cars_solvable: "\<exists>g. (two_cars, g) \<in> legal_rel\<^sup>* \<and> ENDPOINT \<in> set g"
proof (intro exI conjI)
  show "(two_cars,
    [\<lparr>car_name = ''r'', car_x = 2, car_y = 4, car_size = 2, car_direction = HORIZONTAL\<rparr>,
     \<lparr>car_name = ''b'', car_x = 3, car_y = 5, car_size = 2, car_direction = VERTICAL\<rparr>])
   \<in> legal_rel\<^sup>*"
    using two_cars_legal_step by (rule r_into_rtrancl)
  show "ENDPOINT \<in> set
    [\<lparr>car_name = ''r'', car_x = 2, car_y = 4, car_size = 2, car_direction = HORIZONTAL\<rparr>,
     \<lparr>car_name = ''b'', car_x = 3, car_y = 5, car_size = 2, car_direction = VERTICAL\<rparr>]"
    by (simp add: ENDPOINT_def)
qed

section \<open>The claims\<close>

text \<open>
  Claim C1, as amended. For every initial configuration whose cars are horizontal or
  vertical, of size at least 1 and inside the grid, none of them named by the empty marker
  \<^verbatim>\<open>" "\<close>, and from which legal moves lead to a state that contains the target car, the
  search returns with enough fuel, without an exception. What it logs is the move log of a
  path that starts at the initial configuration, each of whose steps is a legal move, and
  that ends in a goal state; the log is headed by the step count "length of the path minus
  one" and has one line for each move. That many legal moves lead to the goal state, and no
  goal state is reached by fewer legal moves. When the footprints of the initial
  configuration are pairwise disjoint, so are those of every state of the path. The legal
  moves are those of the specification (\<^const>\<open>legal_moves\<close>), not the output of the
  generator.
\<close>

theorem run_finds_shortest_legal_solution:
  assumes "in_bounds initial_cars"
    and "\<forall>c \<in> set initial_cars. car_name c \<noteq> EMPTY_CELL"
    and "\<exists>g. (initial_cars, g) \<in> legal_rel\<^sup>* \<and> ENDPOINT \<in> set g"
  shows "\<exists>fuel path bs.
     (\<forall>fuel' \<ge> fuel. run fuel' initial_cars = Some (print_moves path @ [DebugBoards bs], None)) \<and>
     path \<noteq> [] \<and> hd path = initial_cars \<and> legal_path path \<and> ENDPOINT \<in> set (last path) \<and>
     hd (print_moves path) = TotalSteps (int (length path) - 1) \<and>
     length (print_moves path) = length path \<and>
     (initial_cars, last path) \<in> legal_rel ^^ (length path - 1) \<and>
     (\<forall>n g. (initial_cars, g) \<in> legal_rel ^^ n \<and> ENDPOINT \<in> set g \<longrightarrow> length path - 1 \<le> n) \<and>
     (well_formed initial_cars \<longrightarrow> (\<forall>s \<in> set path. well_formed s))"
proof -
  note ib = assms(1)
  have nb: "no_blank_name initial_cars" using assms(2) by (simp add: no_blank_name_def)
  have "\<exists>g. (initial_cars, g) \<in> move_rel\<^sup>* \<and> ENDPOINT \<in> set g"
    using assms(3) by (simp add: rtrancl_move_legal [OF ib nb])
  from run_shortest_over_generator [OF ib this] obtain fuel path bs
    where run: "\<forall>fuel' \<ge> fuel. run fuel' initial_cars = Some (print_moves path @ [DebugBoards bs], None)"
      and ne: "path \<noteq> []" and hd: "hd path = initial_cars" and vp: "valid_path path"
      and goal: "ENDPOINT \<in> set (last path)"
      and total: "hd (print_moves path) = TotalSteps (int (length path) - 1)"
      and lines: "length (print_moves path) = length path"
      and pw: "(initial_cars, last path) \<in> move_rel ^^ (length path - 1)"
      and least: "\<forall>n g. (initial_cars, g) \<in> move_rel ^^ n \<and> ENDPOINT \<in> set g \<longrightarrow> length path - 1 \<le> n"
    by (elim exE conjE)
  have lp: "legal_path path"
    using vp ne ib nb unfolding hd [symmetric] by (rule valid_path_legal_path)
  have pw': "(initial_cars, last path) \<in> legal_rel ^^ (length path - 1)"
    using pw by (simp add: relpow_move_legal [OF ib nb])
  have least': "\<forall>n g. (initial_cars, g) \<in> legal_rel ^^ n \<and> ENDPOINT \<in> set g \<longrightarrow> length path - 1 \<le> n"
    using least by (simp add: relpow_move_legal [OF ib nb])
  have wf: "well_formed initial_cars \<longrightarrow> (\<forall>s \<in> set path. well_formed s)"
  proof (intro impI ballI)
    fix s assume w: "well_formed initial_cars" and s: "s \<in> set path"
    from vp s have "(hd path, s) \<in> move_rel\<^sup>*" by (rule valid_path_reachable)
    then have "(initial_cars, s) \<in> move_rel\<^sup>*" by (simp add: hd)
    from well_formed_reachable [OF this w assms(2)] show "well_formed s" by simp
  qed
  show ?thesis
    apply (rule exI [of _ fuel])
    apply (rule exI [of _ path])
    apply (rule exI [of _ bs])
    apply (intro conjI)
            apply (rule run)
           apply (rule ne)
          apply (rule hd)
         apply (rule lp)
        apply (rule goal)
       apply (rule total)
      apply (rule lines)
     apply (rule pw')
     apply (rule least')
    apply (rule wf)
    done
qed

theorem run_finds_shortest_legal_solution_witness:
  "\<exists>fuel path bs.
     run fuel two_cars = Some (print_moves path @ [DebugBoards bs], None) \<and>
     hd path = two_cars \<and> legal_path path \<and> ENDPOINT \<in> set (last path) \<and>
     length path - 1 \<le> 1 \<and> well_formed (last path)"
proof -
  let ?t = "[\<lparr>car_name = ''r'', car_x = 2, car_y = 4, car_size = 2, car_direction = HORIZONTAL\<rparr>,
      \<lparr>car_name = ''b'', car_x = 3, car_y = 5, car_size = 2, car_direction = VERTICAL\<rparr>]"
  have ib: "in_bounds two_cars" and wf: "well_formed two_cars"
    using blank_examples_well_formed by simp_all
  have nm: "\<forall>c \<in> set two_cars. car_name c \<noteq> EMPTY_CELL"
    by (simp add: two_cars_def EMPTY_CELL_def)
  have gt: "ENDPOINT \<in> set ?t" by (simp add: ENDPOINT_def)
  from run_finds_shortest_legal_solution [OF ib nm two_cars_solvable] obtain fuel path bs
    where run: "\<forall>fuel' \<ge> fuel. run fuel' two_cars = Some (print_moves path @ [DebugBoards bs], None)"
      and ne: "path \<noteq> []"
      and hd: "hd path = two_cars" and lp: "legal_path path" and goal: "ENDPOINT \<in> set (last path)"
      and least: "\<forall>n g. (two_cars, g) \<in> legal_rel ^^ n \<and> ENDPOINT \<in> set g \<longrightarrow> length path - 1 \<le> n"
      and w: "well_formed two_cars \<longrightarrow> (\<forall>s \<in> set path. well_formed s)"
    by (elim exE conjE)
  have "(two_cars, ?t) \<in> legal_rel ^^ 1" using two_cars_legal_step by simp
  with least gt have "length path - 1 \<le> 1" by blast
  moreover have "run fuel two_cars = Some (print_moves path @ [DebugBoards bs], None)"
    using run by simp
  moreover have "well_formed (last path)" using w wf ne by simp
  ultimately show ?thesis using hd goal lp by blast
qed

text \<open>
  Claim C1 as stated fails: the board marks a cell by the name of the car on it, so a car
  named by the empty marker \<^verbatim>\<open>" "\<close> leaves its cells looking free. In this configuration
  car "r" lies in row 2, columns 3 and 4, and a vertical car of size 3 named \<^verbatim>\<open>" "\<close> lies in
  column 5, rows 0 to 2; the footprints are inside the grid and disjoint and the names
  differ. Four legal moves lead to a goal state (the blocker moves down three times, then
  "r" moves right) and fewer than four lead to none, yet the search reports one step: "r"
  moved right onto the cell in row 2, column 5, which the blocker occupies.
\<close>

theorem shortest_solution_counterexample:
  "well_formed blank_blocker \<and> in_bounds blank_blocker \<and>
   distinct (map car_name blank_blocker) \<and>
   hd blocker_path = blank_blocker \<and> legal_path blocker_path \<and>
   ENDPOINT \<in> set (last blocker_path) \<and>
   (blank_blocker, last blocker_path) \<in> legal_rel ^^ 4 \<and>
   \<not> (\<exists>n g. n < 4 \<and> (blank_blocker, g) \<in> legal_rel ^^ n \<and> ENDPOINT \<in> set g) \<and>
   occupied blank_blocker (2, 5) \<and>
   run 2 blank_blocker =
     Some
      ([TotalSteps 1, Right ''r'',
        DebugBoards
         [[['' '', '' '', '' '', '' '', '' '', '' ''],
         ['' '', '' '', '' '', '' '', '' '', '' ''],
         ['' '', '' '', '' '', ''r'', ''r'', '' ''],
         ['' '', '' '', '' '', '' '', '' '', '' ''],
         ['' '', '' '', '' '', '' '', '' '', '' ''],
         ['' '', '' '', '' '', '' '', '' '', '' '']],
        [['' '', '' '', '' '', '' '', '' '', '' ''],
         ['' '', '' '', '' '', '' '', '' '', '' ''],
         ['' '', '' '', '' '', '' '', ''r'', '' ''],
         ['' '', '' '', '' '', '' '', '' '', '' ''],
         ['' '', '' '', '' '', '' '', '' '', '' ''],
         ['' '', '' '', '' '', '' '', '' '', '' '']]]],
       None)"
proof -
  have p: "legal_path blocker_path" "hd blocker_path = blank_blocker"
    "ENDPOINT \<in> set (last blocker_path)" "length blocker_path = 5"
    using blocker_path_legal by simp_all
  have "blocker_path \<noteq> []" using p(4) by auto
  with p(1) have "(hd blocker_path, last blocker_path) \<in> legal_rel ^^ (length blocker_path - 1)"
    by (rule legal_path_relpow)
  then have four: "(blank_blocker, last blocker_path) \<in> legal_rel ^^ 4" by (simp add: p)
  have none: "\<not> (\<exists>n g. n < 4 \<and> (blank_blocker, g) \<in> legal_rel ^^ n \<and> ENDPOINT \<in> set g)"
  proof
    assume "\<exists>n g. n < 4 \<and> (blank_blocker, g) \<in> legal_rel ^^ n \<and> ENDPOINT \<in> set g"
    then obtain n g where n: "n < 4" and g: "g \<in> set (legal_after n blank_blocker)"
      and e: "ENDPOINT \<in> set g"
      unfolding legal_after_relpow by blast
    from n have "n \<in> set [0, 1, 2, 3]" by auto
    with blank_blocker_no_short_solution g have "ENDPOINT \<notin> set g"
      unfolding list_all_iff by blast
    with e show False by simp
  qed
  have occ: "occupied blank_blocker (2, 5)" by code_simp
  show ?thesis
    using blank_examples_well_formed p(1,2,3) four none occ run_blank_blocker
    by (intro conjI) simp_all
qed

text \<open>
  Claim C2, as amended. For a state whose cars are horizontal or vertical, of size at least
  1, with their footprints inside the grid, and none of them named by the empty marker
  \<^verbatim>\<open>" "\<close>, the generator raises nothing and yields exactly the legal moves of the
  specification, in the order of the cars: for a horizontal car, right iff column + size < 6
  and no car of the state covers the cell right of its last cell, left iff column > 0 and no
  car covers the cell left of its first cell; down and up likewise for a vertical car. Each
  successor is the input state with that car's column or row changed by one and nothing
  else.
\<close>

theorem possible_moves_yields_legal_slides:
  assumes "in_bounds cars" and "\<forall>c \<in> set cars. car_name c \<noteq> EMPTY_CELL"
  shows "possible_moves cars = (legal_moves cars, None) \<and>
    (\<forall>s. s \<in> set (fst (possible_moves cars)) \<longleftrightarrow>
       (\<exists>k < length cars.
          (car_direction (cars ! k) = HORIZONTAL \<and>
           car_y (cars ! k) + car_size (cars ! k) < 6 \<and>
           \<not> occupied cars (car_x (cars ! k), car_y (cars ! k) + car_size (cars ! k)) \<and>
           s = cars[k := (cars ! k)\<lparr>car_y := car_y (cars ! k) + 1\<rparr>]) \<or>
          (car_direction (cars ! k) = HORIZONTAL \<and>
           car_y (cars ! k) > 0 \<and>
           \<not> occupied cars (car_x (cars ! k), car_y (cars ! k) - 1) \<and>
           s = cars[k := (cars ! k)\<lparr>car_y := car_y (cars ! k) - 1\<rparr>]) \<or>
          (car_direction (cars ! k) = VERTICAL \<and>
           car_x (cars ! k) + car_size (cars ! k) < 6 \<and>
           \<not> occupied cars (car_x (cars ! k) + car_size (cars ! k), car_y (cars ! k)) \<and>
           s = cars[k := (cars ! k)\<lparr>car_x := car_x (cars ! k) + 1\<rparr>]) \<or>
          (car_direction (cars ! k) = VERTICAL \<and>
           car_x (cars ! k) > 0 \<and>
           \<not> occupied cars (car_x (cars ! k) - 1, car_y (cars ! k)) \<and>
           s = cars[k := (cars ! k)\<lparr>car_x := car_x (cars ! k) - 1\<rparr>])))"
proof -
  have nb: "no_blank_name cars" using assms(2) by (simp add: no_blank_name_def)
  have pm: "possible_moves cars = (legal_moves cars, None)"
    using assms(1) nb by (rule possible_moves_legal)
  show ?thesis
    unfolding pm fst_conv
    apply (intro conjI allI)
     apply (rule refl)
    apply (rule legal_moves_explicit)
    done
qed

theorem possible_moves_yields_legal_slides_witness:
  "in_bounds two_cars \<and>
   possible_moves two_cars = (legal_moves two_cars, None) \<and>
   \<not> occupied two_cars (2, 5) \<and>
   two_cars[0 := (two_cars ! 0)\<lparr>car_y := car_y (two_cars ! 0) + 1\<rparr>]
     \<in> set (fst (possible_moves two_cars))"
proof -
  have ib: "in_bounds two_cars" using blank_examples_well_formed by simp
  have nm: "\<forall>c \<in> set two_cars. car_name c \<noteq> EMPTY_CELL"
    by (simp add: two_cars_def EMPTY_CELL_def)
  note t = possible_moves_yields_legal_slides [OF ib nm]
  have occ: "\<not> occupied two_cars (2, 5)" by code_simp
  have k: "(0::nat) < length two_cars" by (simp add: two_cars_def)
  have d: "car_direction (two_cars ! 0) = HORIZONTAL" by code_simp
  have b: "car_y (two_cars ! 0) + car_size (two_cars ! 0) < 6" by code_simp
  have o: "\<not> occupied two_cars (car_x (two_cars ! 0), car_y (two_cars ! 0) + car_size (two_cars ! 0))"
    by code_simp
  have "two_cars[0 := (two_cars ! 0)\<lparr>car_y := car_y (two_cars ! 0) + 1\<rparr>]
     \<in> set (fst (possible_moves two_cars))"
    unfolding t [THEN conjunct2, rule_format]
    apply (rule exI [of _ 0])
    apply (rule conjI)
     apply (rule k)
    apply (rule disjI1)
    apply (intro conjI)
       apply (rule d)
      apply (rule b)
     apply (rule o)
    apply (rule refl)
    done
  with ib t [THEN conjunct1] occ show ?thesis by (intro conjI)
qed

text \<open>
  Claim C2 as stated fails: the generator reads "the cell is empty" from the board, which
  marks a cell by the name of the car on it. In this configuration the car named by the
  empty marker \<^verbatim>\<open>" "\<close> lies in row 0, columns 2 and 3, and car "a" in row 0, columns 0 and
  1; the footprints are inside the grid and disjoint and the names differ. The cell right of
  car "a", row 0, column 2, is occupied, so moving "a" right is not a legal move, yet the
  generator yields that successor.
\<close>

theorem slide_onto_occupied_counterexample:
  "well_formed blank_name_example \<and> in_bounds blank_name_example \<and>
   distinct (map car_name blank_name_example) \<and>
   occupied blank_name_example (0, 2) \<and>
   blank_name_successor =
     blank_name_example[1 := (blank_name_example ! 1)\<lparr>car_y := car_y (blank_name_example ! 1) + 1\<rparr>] \<and>
   (car_x (blank_name_example ! 1),
    car_y (blank_name_example ! 1) + car_size (blank_name_example ! 1)) = (0, 2) \<and>
   blank_name_successor \<in> set (fst (possible_moves blank_name_example)) \<and>
   blank_name_successor \<notin> set (legal_moves blank_name_example)"
proof -
  have occ: "occupied blank_name_example (0, 2)" by code_simp
  have upd: "blank_name_successor =
     blank_name_example[1 := (blank_name_example ! 1)\<lparr>car_y := car_y (blank_name_example ! 1) + 1\<rparr>]"
    by (simp add: blank_name_successor_def blank_name_example_def)
  have cell: "(car_x (blank_name_example ! 1),
    car_y (blank_name_example ! 1) + car_size (blank_name_example ! 1)) = (0, 2)"
    by (simp add: blank_name_example_def)
  have mv: "blank_name_successor \<in> set (fst (possible_moves blank_name_example))"
    by (simp add: blank_name_moves blank_name_successor_def)
  have il: "blank_name_successor \<notin> set (legal_moves blank_name_example)"
    by (simp add: blank_name_legal_moves blank_name_successor_def)
  show ?thesis
    using blank_examples_well_formed occ upd cell mv il by (intro conjI) simp_all
qed

text \<open>
  Claim C3, as amended. Two states reachable from one initial configuration whose car names
  are pairwise distinct, and containing the same cars with the same placements, are the same
  tuple: they compare equal, and the solver skips the second once the first is in the set of
  boards seen. (Nothing sorts the cars: the same cars listed in another order are another
  state.)
\<close>

theorem reachable_states_deduplicated:
  assumes "(s0, s) \<in> move_rel\<^sup>*" and "(s0, t) \<in> move_rel\<^sup>*"
    and "distinct (map car_name s0)" and "set s = set t"
  shows "s = t \<and> (s \<in> seen \<longrightarrow> run_step seen (t, history) queue = Running seen queue)"
proof -
  have "s = t" using assms by (rule reachable_same_cars_equal)
  then show ?thesis by (simp add: run_step_def)
qed

theorem reachable_states_deduplicated_witness:
  "run_step {two_cars} (two_cars, [two_cars]) [] = Running {two_cars} []"
proof -
  have "(two_cars, two_cars) \<in> move_rel\<^sup>*" by simp
  moreover have "distinct (map car_name two_cars)" by (simp add: two_cars_def)
  ultimately show ?thesis
    using reachable_states_deduplicated [of two_cars two_cars two_cars "{two_cars}" "[two_cars]" "[]"]
    by simp
qed

text \<open>
  Claim C3 as stated fails: the same two cars listed in the other order are a state that is
  not equal to the first, and the solver expands it although the first is in the set of
  boards seen.
\<close>

theorem order_matters_counterexample:
  "set swapped_cars = set two_cars \<and> swapped_cars \<noteq> two_cars \<and>
   run_step {two_cars} (swapped_cars, []) [] =
     Running {swapped_cars, two_cars}
       (map (\<lambda>m. (m, [swapped_cars])) (fst (possible_moves swapped_cars))) \<and>
   length (fst (possible_moves swapped_cars)) = 4"
proof -
  have ne: "swapped_cars \<noteq> two_cars" by (simp add: swapped_cars_def two_cars_def)
  have "ENDPOINT \<notin> set swapped_cars" by (simp add: swapped_cars_def ENDPOINT_def)
  then have "run_step {two_cars} (swapped_cars, []) [] =
     Running {swapped_cars, two_cars}
       (map (\<lambda>m. (m, [swapped_cars])) (fst (possible_moves swapped_cars)))"
    using ne by (simp add: run_step_def swapped_cars_moves Let_def)
  moreover have "set swapped_cars = set two_cars"
    by (auto simp: swapped_cars_def two_cars_def)
  moreover have "length (fst (possible_moves swapped_cars)) = 4"
    by (simp add: swapped_cars_moves)
  ultimately show ?thesis using ne by simp
qed

text \<open>
  Claim C4, as amended. The program raises an error before the search begins exactly when
  reading the rows fails or the construction of the initial board fails. Reading succeeds
  exactly when every row has five fields, of which the second, third and fourth convert to
  integers and the last is the code H or V; the construction of the board fails exactly
  when some car's direction is neither horizontal nor vertical or some cell of a footprint
  has a row or column index outside \<open>-6 .. 5\<close>. Nothing else is checked: duplicate names
  and overlapping footprints raise nothing, and when the cars are horizontal or vertical
  with footprints inside the grid, the initial board is logged and the configuration is
  searched as it is.
\<close>

theorem main_errors_before_search:
  "(read_setup to_int rows = Inr cars \<longleftrightarrow> list_all2 (row_reads_as to_int) rows cars) \<and>
   (read_setup to_int rows = Inl e \<longrightarrow> main to_int fuel rows = Some ([], Some e)) \<and>
   (read_setup to_int rows = Inr cars \<longrightarrow> main to_int fuel rows = main_body fuel cars) \<and>
   ((\<exists>e. get_board cars = Inl e \<and> main_body fuel cars = Some ([], Some e)) \<longleftrightarrow>
      (\<exists>c \<in> set cars. (car_direction c \<noteq> HORIZONTAL \<and> car_direction c \<noteq> VERTICAL) \<or>
                        (\<exists>p \<in> set (footprint c). \<not> writable p))) \<and>
   ((\<forall>c \<in> set cars. (car_direction c = HORIZONTAL \<or> car_direction c = VERTICAL) \<and>
                      (\<forall>p \<in> set (footprint c). in_grid p)) \<longrightarrow>
      (\<exists>b. get_board cars = Inr b \<and>
           main_body fuel cars =
             (case run fuel cars of
                None \<Rightarrow> None
              | Some (log, Some e) \<Rightarrow> Some (InitialBoard b # log, Some e)
              | Some (log, None) \<Rightarrow> Some (InitialBoard b # log @ [Duration], None))))"
proof (intro conjI impI)
  show "read_setup to_int rows = Inr cars \<longleftrightarrow> list_all2 (row_reads_as to_int) rows cars"
    by (rule read_setup_ok_iff)
next
  assume "read_setup to_int rows = Inl e"
  then show "main to_int fuel rows = Some ([], Some e)" by (simp add: main_def)
next
  assume "read_setup to_int rows = Inr cars"
  then show "main to_int fuel rows = main_body fuel cars" by (simp add: main_def)
next
  have "(\<exists>e. get_board cars = Inl e \<and> main_body fuel cars = Some ([], Some e)) \<longleftrightarrow>
        (\<exists>e. get_board cars = Inl e)"
    by (auto simp: main_body_def)
  also have "\<dots> \<longleftrightarrow> \<not> (\<exists>b. get_board cars = Inr b)"
    by (cases "get_board cars") auto
  also have "\<dots> \<longleftrightarrow> (\<exists>c \<in> set cars. \<not> placeable c)"
    by (simp add: get_board_ok_iff)
  finally show "(\<exists>e. get_board cars = Inl e \<and> main_body fuel cars = Some ([], Some e)) \<longleftrightarrow>
      (\<exists>c \<in> set cars. (car_direction c \<noteq> HORIZONTAL \<and> car_direction c \<noteq> VERTICAL) \<or>
                        (\<exists>p \<in> set (footprint c). \<not> writable p))"
    by (auto simp: placeable_def)
next
  assume a: "\<forall>c \<in> set cars. (car_direction c = HORIZONTAL \<or> car_direction c = VERTICAL) \<and>
                      (\<forall>p \<in> set (footprint c). in_grid p)"
  then have "\<forall>c \<in> set cars. placeable c"
    by (auto simp: placeable_def dest: in_grid_writable)
  then obtain b where b: "get_board cars = Inr b" using get_board_ok_iff [of cars] by auto
  then show "\<exists>b. get_board cars = Inr b \<and>
           main_body fuel cars =
             (case run fuel cars of
                None \<Rightarrow> None
              | Some (log, Some e) \<Rightarrow> Some (InitialBoard b # log, Some e)
              | Some (log, None) \<Rightarrow> Some (InitialBoard b # log @ [Duration], None))"
    by (simp add: main_body_def)
qed

theorem main_errors_before_search_witness:
  "\<exists>b. get_board crossing_example = Inr b \<and>
       main_body 5 crossing_example =
         (case run 5 crossing_example of
            None \<Rightarrow> None
          | Some (log, Some e) \<Rightarrow> Some (InitialBoard b # log, Some e)
          | Some (log, None) \<Rightarrow> Some (InitialBoard b # log @ [Duration], None))"
proof -
  have "\<forall>c \<in> set crossing_example.
      (car_direction c = HORIZONTAL \<or> car_direction c = VERTICAL) \<and>
      (\<forall>p \<in> set (footprint c). in_grid p)"
    by (simp add: crossing_example_def footprint_def py_range_def upt_rec in_grid_def BOARD_SIZE_def)
  with main_errors_before_search [where cars = crossing_example and fuel = 5,
      THEN conjunct2, THEN conjunct2, THEN conjunct2, THEN conjunct2]
  show ?thesis by (rule mp)
qed

text \<open>
  Claim C4 as stated fails: the footprints of the two cars of this configuration share the
  cell in row 2, column 4; no error is raised, the search runs and a solution of one step is
  logged.
\<close>

theorem overlap_searched_counterexample:
  "main_body 5 crossing_example =
   Some
    ([InitialBoard
       [['' '', '' '', '' '', '' '', '' '', '' ''],
        ['' '', '' '', '' '', '' '', '' '', '' ''],
        ['' '', '' '', '' '', ''r'', ''b'', '' ''],
        ['' '', '' '', '' '', '' '', ''b'', '' ''],
        ['' '', '' '', '' '', '' '', '' '', '' ''],
        ['' '', '' '', '' '', '' '', '' '', '' '']],
      TotalSteps 1, Right ''r'',
      DebugBoards
       [[['' '', '' '', '' '', '' '', '' '', '' ''],
         ['' '', '' '', '' '', '' '', '' '', '' ''],
         ['' '', '' '', '' '', ''r'', ''b'', '' ''],
         ['' '', '' '', '' '', '' '', ''b'', '' ''],
         ['' '', '' '', '' '', '' '', '' '', '' ''],
         ['' '', '' '', '' '', '' '', '' '', '' '']],
        [['' '', '' '', '' '', '' '', '' '', '' ''],
         ['' '', '' '', '' '', '' '', '' '', '' ''],
         ['' '', '' '', '' '', '' '', ''b'', ''r''],
         ['' '', '' '', '' '', '' '', ''b'', '' ''],
         ['' '', '' '', '' '', '' '', '' '', '' ''],
         ['' '', '' '', '' '', '' '', '' '', '' '']]],
      Duration],
     None)"
  by code_simp

text \<open>
  Claim C5, as amended. For every initial configuration whose cars are horizontal or
  vertical, of size at least 1 and inside the grid, none of them named by the empty marker
  \<^verbatim>\<open>" "\<close>, and from which legal moves lead to no state that contains the target car, the
  search returns with enough fuel when its queue is empty, without an exception and with
  nothing logged. The call evaluates to \<^verbatim>\<open>None\<close>, the value it also has after a success:
  no value says "no solution". The outcome differs from a success only in the log, since a
  success has logged the step count and this outcome has logged nothing.
\<close>

theorem run_returns_none_when_unsolvable:
  assumes "in_bounds initial_cars"
    and "\<forall>c \<in> set initial_cars. car_name c \<noteq> EMPTY_CELL"
    and "\<forall>g. (initial_cars, g) \<in> legal_rel\<^sup>* \<longrightarrow> ENDPOINT \<notin> set g"
  shows "(\<exists>fuel. \<forall>fuel' \<ge> fuel.
            run fuel' initial_cars = Some ([], None) \<and>
            map_option returned (run fuel' initial_cars) = Some (Some PyNone)) \<and>
         returned (print_moves path @ log, None) = Some PyNone \<and>
         ([], None) \<noteq> (print_moves path @ log, e)"
proof -
  note ib = assms(1)
  have nb: "no_blank_name initial_cars" using assms(2) by (simp add: no_blank_name_def)
  have "\<forall>g. (initial_cars, g) \<in> move_rel\<^sup>* \<longrightarrow> ENDPOINT \<notin> set g"
    using assms(3) by (simp add: rtrancl_move_legal [OF ib nb])
  from run_silent_over_generator [OF ib this, of path log e] obtain fuel
    where run: "\<forall>fuel' \<ge> fuel. run fuel' initial_cars = Some ([], None)"
      and ne: "([], None) \<noteq> (print_moves path @ log, e)"
    by (elim exE conjE)
  have "\<forall>fuel' \<ge> fuel.
            run fuel' initial_cars = Some ([], None) \<and>
            map_option returned (run fuel' initial_cars) = Some (Some PyNone)"
    using run by (simp add: returned_def)
  then have "\<exists>fuel. \<forall>fuel' \<ge> fuel.
            run fuel' initial_cars = Some ([], None) \<and>
            map_option returned (run fuel' initial_cars) = Some (Some PyNone)" ..
  moreover have "returned (print_moves path @ log, None) = Some PyNone"
    by (simp add: returned_def)
  ultimately show ?thesis using ne by (intro conjI)
qed

theorem run_returns_none_when_unsolvable_witness:
  "\<exists>fuel. run fuel lone_car = Some ([], None) \<and>
          map_option returned (run fuel lone_car) = Some (Some PyNone)"
proof -
  have ib: "in_bounds lone_car" using blank_examples_well_formed by simp
  have nm: "\<forall>c \<in> set lone_car. car_name c \<noteq> EMPTY_CELL"
    by (simp add: lone_car_def EMPTY_CELL_def)
  have "\<forall>g. (lone_car, g) \<in> legal_rel\<^sup>* \<longrightarrow> ENDPOINT \<notin> set g"
    using lone_car_legal_unsolvable by blast
  from run_returns_none_when_unsolvable [OF ib nm this, THEN conjunct1] obtain fuel
    where "\<forall>fuel' \<ge> fuel. run fuel' lone_car = Some ([], None) \<and>
            map_option returned (run fuel' lone_car) = Some (Some PyNone)" ..
  then have "run fuel lone_car = Some ([], None) \<and>
            map_option returned (run fuel lone_car) = Some (Some PyNone)"
    by (simp add: returned_def)
  then show ?thesis ..
qed

text \<open>
  Claim C5 as stated fails, twice. First, there is no "no solution" value: from the lone
  car "b", a configuration inside the grid from which no legal moves lead to a goal state,
  the search returns having logged nothing and the call evaluates to \<^verbatim>\<open>None\<close>, which is
  also what it evaluates to from a solvable configuration, after logging the solution.
  Second, a car named by the empty marker \<^verbatim>\<open>" "\<close> leaves its cells looking free: in the
  last configuration (footprints inside the grid and disjoint, names distinct) no car has a
  legal move and the target car is absent, yet the search logs a solution of one step, car
  "r" moved right onto a cell of the car named \<^verbatim>\<open>" "\<close>.
\<close>

theorem no_solution_value_counterexample:
  "well_formed lone_car \<and> in_bounds lone_car \<and>
   \<not> (\<exists>g. (lone_car, g) \<in> legal_rel\<^sup>* \<and> ENDPOINT \<in> set g) \<and>
   run 9 lone_car = Some ([], None) \<and>
   map_option returned (run 9 lone_car) = Some (Some PyNone) \<and>
   well_formed two_cars \<and> in_bounds two_cars \<and>
   (\<exists>g. (two_cars, g) \<in> legal_rel\<^sup>* \<and> ENDPOINT \<in> set g) \<and>
   map_option (\<lambda>r. hd (fst r)) (run 2 two_cars) = Some (TotalSteps 1) \<and>
   map_option returned (run 2 two_cars) = Some (Some PyNone) \<and>
   well_formed blank_wall \<and> in_bounds blank_wall \<and> distinct (map car_name blank_wall) \<and>
   legal_moves blank_wall = [] \<and>
   \<not> (\<exists>g. (blank_wall, g) \<in> legal_rel\<^sup>* \<and> ENDPOINT \<in> set g) \<and>
   run 2 blank_wall =
     Some
      ([TotalSteps 1, Right ''r'',
        DebugBoards
         [[['' '', '' '', '' '', '' '', '' '', '' ''],
         ['' '', '' '', '' '', '' '', '' '', '' ''],
         [''u'', ''u'', ''u'', ''r'', ''r'', '' ''],
         ['' '', '' '', '' '', '' '', '' '', ''t''],
         ['' '', '' '', '' '', '' '', '' '', ''t''],
         ['' '', '' '', '' '', '' '', '' '', ''t'']],
        [['' '', '' '', '' '', '' '', '' '', '' ''],
         ['' '', '' '', '' '', '' '', '' '', '' ''],
         [''u'', ''u'', ''u'', '' '', ''r'', '' ''],
         ['' '', '' '', '' '', '' '', '' '', ''t''],
         ['' '', '' '', '' '', '' '', '' '', ''t''],
         ['' '', '' '', '' '', '' '', '' '', ''t'']]]],
       None)"
proof -
  have l: "\<not> (\<exists>g. (lone_car, g) \<in> legal_rel\<^sup>* \<and> ENDPOINT \<in> set g)"
    using lone_car_legal_unsolvable by blast
  have rl: "run 9 lone_car = Some ([], None)" using run_lone_car by simp
  have rl': "map_option returned (run 9 lone_car) = Some (Some PyNone)"
    by (simp add: rl returned_def)
  have rt: "map_option (\<lambda>r. hd (fst r)) (run 2 two_cars) = Some (TotalSteps 1)"
    by (simp add: run_two_cars)
  have rt': "map_option returned (run 2 two_cars) = Some (Some PyNone)"
    by (simp add: run_two_cars returned_def)
  have "ENDPOINT \<notin> set blank_wall" by code_simp
  then have w: "\<not> (\<exists>g. (blank_wall, g) \<in> legal_rel\<^sup>* \<and> ENDPOINT \<in> set g)"
    using blank_wall_stuck by blast
  show ?thesis
    using blank_examples_well_formed l rl rl' two_cars_solvable rt rt'
      blank_wall_legal_moves w run_blank_wall
    by (intro conjI) simp_all
qed

text \<open>
  Claim C6, as amended. For every state reachable through the move generator from an initial
  configuration whose footprints are inside the grid and pairwise disjoint, and none of
  whose cars is named by the empty marker \<^verbatim>\<open>" "\<close>, every footprint lies inside the grid
  and no two cars share a cell.
\<close>

theorem reachable_states_well_formed:
  assumes "well_formed s0" and "\<forall>c \<in> set s0. car_name c \<noteq> EMPTY_CELL"
    and "(s0, s) \<in> move_rel\<^sup>*"
  shows "well_formed s"
  using well_formed_reachable [OF assms(3,1,2)] by simp

theorem reachable_states_well_formed_witness:
  "well_formed two_cars \<and>
   well_formed
     [\<lparr>car_name = ''r'', car_x = 2, car_y = 4, car_size = 2, car_direction = HORIZONTAL\<rparr>,
      \<lparr>car_name = ''b'', car_x = 3, car_y = 5, car_size = 2, car_direction = VERTICAL\<rparr>]"
proof -
  let ?t = "[\<lparr>car_name = ''r'', car_x = 2, car_y = 4, car_size = 2, car_direction = HORIZONTAL\<rparr>,
      \<lparr>car_name = ''b'', car_x = 3, car_y = 5, car_size = 2, car_direction = VERTICAL\<rparr>]"
  have wf: "well_formed two_cars"
    by (rule well_formed_two)
      (simp_all add: two_cars_def footprint_def py_range_def upt_rec in_grid_def BOARD_SIZE_def)
  have nm: "\<forall>c \<in> set two_cars. car_name c \<noteq> EMPTY_CELL"
    by (simp add: two_cars_def EMPTY_CELL_def)
  have "(two_cars, ?t) \<in> move_rel" by (simp add: move_rel_def two_cars_moves)
  then have "(two_cars, ?t) \<in> move_rel\<^sup>*" by (rule r_into_rtrancl)
  with wf nm have "well_formed ?t" by (rule reachable_states_well_formed)
  with wf show ?thesis by simp
qed

text \<open>
  Claim C6 as stated fails: a car named by the empty marker is invisible on the board. The
  two footprints of this configuration are inside the grid and disjoint, yet the generator
  yields the successor in which car "a" has moved onto the cell in row 0, column 2, which the
  other car occupies.
\<close>

theorem blank_name_counterexample:
  "well_formed blank_name_example \<and>
   blank_name_successor \<in> set (fst (possible_moves blank_name_example)) \<and>
   (0, 2) \<in> set (footprint (blank_name_successor ! 0)) \<inter>
            set (footprint (blank_name_successor ! 1)) \<and>
   \<not> well_formed blank_name_successor"
proof -
  have wf: "well_formed blank_name_example"
    by (rule well_formed_two)
      (simp_all add: blank_name_example_def footprint_def py_range_def upt_rec in_grid_def
        BOARD_SIZE_def)
  have mv: "blank_name_successor \<in> set (fst (possible_moves blank_name_example))"
    by (simp add: blank_name_moves blank_name_successor_def)
  have sh: "(0, 2) \<in> set (footprint (blank_name_successor ! 0)) \<inter>
            set (footprint (blank_name_successor ! 1))"
    by (simp add: blank_name_successor_def footprint_def py_range_def upt_rec)
  have "\<not> well_formed blank_name_successor"
  proof
    assume "well_formed blank_name_successor"
    moreover have "(0::nat) < length blank_name_successor" "1 < length blank_name_successor"
      by (simp_all add: blank_name_successor_def)
    ultimately have "set (footprint (blank_name_successor ! 0)) \<inter>
        set (footprint (blank_name_successor ! 1)) = {}"
      unfolding well_formed_def by (metis zero_neq_one)
    with sh show False by blast
  qed
  with wf mv sh show ?thesis by blast
qed

text \<open>
  Claim C7. The goal test holds exactly when some car of the state has name "r", row 2,
  column 4, size 2 and horizontal direction, that is, equals \<open>ENDPOINT\<close>, whose last cell is
  in the rightmost column; an iteration of the solver on a board not yet seen ends the
  search with the move log exactly when the test holds.
\<close>

theorem goal_is_endpoint_membership:
  "(ENDPOINT \<in> set board \<longleftrightarrow>
      (\<exists>c \<in> set board. car_name c = ''r'' \<and> car_x c = 2 \<and> car_y c = 4 \<and> car_size c = 2 \<and>
                         car_direction c = HORIZONTAL)) \<and>
   last (footprint ENDPOINT) = (2, BOARD_SIZE - 1) \<and>
   (board \<notin> seen \<longrightarrow>
      ((\<exists>log e. run_step seen (board, history) queue =
                 Finished (print_moves (history @ [board]) @ log, e)) \<longleftrightarrow>
       ENDPOINT \<in> set board))"
proof (intro conjI impI)
  show "ENDPOINT \<in> set board \<longleftrightarrow>
      (\<exists>c \<in> set board. car_name c = ''r'' \<and> car_x c = 2 \<and> car_y c = 4 \<and> car_size c = 2 \<and>
                         car_direction c = HORIZONTAL)"
  proof
    assume "ENDPOINT \<in> set board"
    then show "\<exists>c \<in> set board. car_name c = ''r'' \<and> car_x c = 2 \<and> car_y c = 4 \<and> car_size c = 2 \<and>
                         car_direction c = HORIZONTAL"
      by (rule bexI [rotated]) (simp add: ENDPOINT_def)
  next
    assume "\<exists>c \<in> set board. car_name c = ''r'' \<and> car_x c = 2 \<and> car_y c = 4 \<and> car_size c = 2 \<and>
                         car_direction c = HORIZONTAL"
    then obtain c where c: "c \<in> set board" and f: "car_name c = ''r''" "car_x c = 2" "car_y c = 4"
      "car_size c = 2" "car_direction c = HORIZONTAL" by blast
    have "c = ENDPOINT" using f by (simp add: ENDPOINT_def)
    with c show "ENDPOINT \<in> set board" by simp
  qed
next
  show "last (footprint ENDPOINT) = (2, BOARD_SIZE - 1)"
    by (simp add: footprint_def ENDPOINT_def py_range_def upt_rec BOARD_SIZE_def)
next
  assume new: "board \<notin> seen"
  show "(\<exists>log e. run_step seen (board, history) queue =
                 Finished (print_moves (history @ [board]) @ log, e)) \<longleftrightarrow>
       ENDPOINT \<in> set board"
  proof (cases "ENDPOINT \<in> set board")
    case True
    show ?thesis
    proof (cases "boards_of (history @ [board])")
      case (Inl e)
      then have "run_step seen (board, history) queue =
          Finished (print_moves (history @ [board]) @ [], Some e)"
        using new True by (simp add: run_step_def)
      then show ?thesis using True by blast
    next
      case (Inr bs)
      then have "run_step seen (board, history) queue =
          Finished (print_moves (history @ [board]) @ [DebugBoards bs], None)"
        using new True by (simp add: run_step_def)
      then show ?thesis using True by blast
    qed
  next
    case False
    have "run_step seen (board, history) queue \<noteq>
          Finished (print_moves (history @ [board]) @ log, e)" for log e
      using new False print_moves_nonempty [of "history @ [board]" log]
      by (auto simp: run_step_def split: prod.splits option.splits)
    then show ?thesis using False by blast
  qed
qed

theorem goal_is_endpoint_membership_witness:
  "ENDPOINT \<in> set [ENDPOINT] \<and>
   (\<exists>log e. run_step {} ([ENDPOINT], []) [] = Finished (print_moves ([] @ [[ENDPOINT]]) @ log, e))"
proof -
  have "[ENDPOINT] \<notin> ({} :: state set)" by simp
  moreover have "ENDPOINT \<in> set [ENDPOINT]" by simp
  ultimately show ?thesis
    using goal_is_endpoint_membership [of "[ENDPOINT]" "{}" "[]" "[]"] by blast
qed

text \<open>
  Claim C8, as amended. For every path in which each consecutive pair of states differs in one
  car only, and in that car's row only or column only, the log is the total, equal to the
  length of the path minus one, followed by exactly one step per consecutive pair, which
  carries the name of the changed car and is Up when its row decreased, Down when it
  increased, Left when its column decreased and Right when it increased.
\<close>

theorem print_moves_one_step_per_pair:
  assumes "\<forall>i. Suc i < length history \<longrightarrow> single_move (history ! i) (history ! Suc i)"
  shows "\<exists>steps. print_moves history = TotalSteps (int (length history) - 1) # steps \<and>
     length steps = length history - 1 \<and>
     (\<forall>i < length history - 1. \<exists>k < length (history ! i).
        history ! i ! k \<noteq> history ! Suc i ! k \<and>
        (car_x (history ! Suc i ! k) < car_x (history ! i ! k) \<longrightarrow>
           steps ! i = Up (car_name (history ! i ! k))) \<and>
        (car_x (history ! i ! k) < car_x (history ! Suc i ! k) \<longrightarrow>
           steps ! i = Down (car_name (history ! i ! k))) \<and>
        (car_y (history ! Suc i ! k) < car_y (history ! i ! k) \<longrightarrow>
           steps ! i = Left (car_name (history ! i ! k))) \<and>
        (car_y (history ! i ! k) < car_y (history ! Suc i ! k) \<longrightarrow>
           steps ! i = Right (car_name (history ! i ! k))))"
proof -
  define g where "g = (\<lambda>i. pair_steps (history ! i) (history ! Suc i))"
  define steps where "steps = map (\<lambda>i. hd (g i)) [0..<length history - 1]"
  have one: "\<exists>k < length (history ! i). history ! i ! k \<noteq> history ! Suc i ! k \<and>
     (\<exists>l. g i = [l] \<and>
       (car_x (history ! Suc i ! k) < car_x (history ! i ! k) \<longrightarrow> l = Up (car_name (history ! i ! k))) \<and>
       (car_x (history ! i ! k) < car_x (history ! Suc i ! k) \<longrightarrow> l = Down (car_name (history ! i ! k))) \<and>
       (car_y (history ! Suc i ! k) < car_y (history ! i ! k) \<longrightarrow> l = Left (car_name (history ! i ! k))) \<and>
       (car_y (history ! i ! k) < car_y (history ! Suc i ! k) \<longrightarrow> l = Right (car_name (history ! i ! k))))"
    if "i < length history - 1" for i
  proof -
    have "Suc i < length history" using that by simp
    then have "single_move (history ! i) (history ! Suc i)" using assms by blast
    then show ?thesis unfolding g_def by (rule single_move_steps)
  qed
  have "\<forall>i \<in> set [0..<length history - 1]. length (g i) = 1"
  proof
    fix i assume "i \<in> set [0..<length history - 1]"
    then have "i < length history - 1" by simp
    from one [OF this] obtain l where "g i = [l]" by blast
    then show "length (g i) = 1" by simp
  qed
  then have "concat (map g [0..<length history - 1]) = steps"
    unfolding steps_def by (rule concat_singletons)
  then have pm: "print_moves history = TotalSteps (int (length history) - 1) # steps"
    by (simp add: print_moves_def g_def)
  have len: "length steps = length history - 1" by (simp add: steps_def)
  have each: "\<exists>k < length (history ! i).
        history ! i ! k \<noteq> history ! Suc i ! k \<and>
        (car_x (history ! Suc i ! k) < car_x (history ! i ! k) \<longrightarrow>
           steps ! i = Up (car_name (history ! i ! k))) \<and>
        (car_x (history ! i ! k) < car_x (history ! Suc i ! k) \<longrightarrow>
           steps ! i = Down (car_name (history ! i ! k))) \<and>
        (car_y (history ! Suc i ! k) < car_y (history ! i ! k) \<longrightarrow>
           steps ! i = Left (car_name (history ! i ! k))) \<and>
        (car_y (history ! i ! k) < car_y (history ! Suc i ! k) \<longrightarrow>
           steps ! i = Right (car_name (history ! i ! k)))"
    if i: "i < length history - 1" for i
  proof -
    from one [OF i] obtain k l where k: "k < length (history ! i)"
      and ne: "history ! i ! k \<noteq> history ! Suc i ! k" and gl: "g i = [l]"
      and l: "(car_x (history ! Suc i ! k) < car_x (history ! i ! k) \<longrightarrow> l = Up (car_name (history ! i ! k))) \<and>
       (car_x (history ! i ! k) < car_x (history ! Suc i ! k) \<longrightarrow> l = Down (car_name (history ! i ! k))) \<and>
       (car_y (history ! Suc i ! k) < car_y (history ! i ! k) \<longrightarrow> l = Left (car_name (history ! i ! k))) \<and>
       (car_y (history ! i ! k) < car_y (history ! Suc i ! k) \<longrightarrow> l = Right (car_name (history ! i ! k)))"
      by blast
    have "steps ! i = l" using i gl by (simp add: steps_def)
    with k ne l show ?thesis by blast
  qed
  show ?thesis
    apply (rule exI [of _ steps])
    apply (intro conjI allI impI)
      apply (rule pm)
     apply (rule len)
    apply (erule each)
    done
qed

theorem print_moves_one_step_per_pair_witness:
  "\<exists>steps. print_moves straight_path = TotalSteps 1 # steps \<and> length steps = 1"
proof -
  have "single_move (straight_path ! 0) (straight_path ! Suc 0)"
    by (simp add: single_move_def straight_path_def)
  moreover have "length straight_path = 2" by (simp add: straight_path_def)
  ultimately have "\<forall>i. Suc i < length straight_path \<longrightarrow>
      single_move (straight_path ! i) (straight_path ! Suc i)"
    by (simp add: less_Suc_eq numeral_2_eq_2)
  from print_moves_one_step_per_pair [OF this] \<open>length straight_path = 2\<close>
  show ?thesis by auto
qed

text \<open>
  Claim C8 as stated fails: when the one car that differs has changed both its row and its
  column, the pair gets two steps.
\<close>

theorem print_moves_diagonal_counterexample:
  "print_moves diagonal_path = [TotalSteps 1, Down ''a'', Right ''a'']"
  by (simp add: print_moves_def diagonal_path_def pair_steps_def car_steps_def)

text \<open>
  Claim C9. Every successor yielded by the move generator has the arity of the input state,
  and the car at each index keeps its name, size and direction; hence every state reachable
  from an initial configuration lists its cars in the order of that configuration. This is
  what the formatter and the solver rely on: a successor differs from its state at one
  index only, in the row only or the column only, so pairing by position finds the car that
  moved; and two reachable states with the same cars are the same tuple when the names of
  the initial configuration are distinct, so equality of tuples identifies them.
\<close>

theorem successors_keep_layout:
  "(t \<in> set (fst (possible_moves s)) \<longrightarrow> same_layout s t \<and> single_move s t) \<and>
   ((s0, u) \<in> move_rel\<^sup>* \<longrightarrow> same_layout s0 u) \<and>
   ((s0, u) \<in> move_rel\<^sup>* \<and> (s0, v) \<in> move_rel\<^sup>* \<and> distinct (map car_name s0) \<and> set u = set v
      \<longrightarrow> u = v)"
proof (intro conjI impI)
  assume "t \<in> set (fst (possible_moves s))"
  then show "same_layout s t" and "single_move s t"
    by (rule possible_moves_layout, rule possible_moves_single_move)
next
  assume "(s0, u) \<in> move_rel\<^sup>*"
  then show "same_layout s0 u" by (rule reachable_layout)
next
  assume "(s0, u) \<in> move_rel\<^sup>* \<and> (s0, v) \<in> move_rel\<^sup>* \<and> distinct (map car_name s0) \<and> set u = set v"
  then show "u = v" by (elim conjE) (rule reachable_same_cars_equal)
qed

theorem successors_keep_layout_witness:
  "same_layout two_cars
     [\<lparr>car_name = ''r'', car_x = 2, car_y = 4, car_size = 2, car_direction = HORIZONTAL\<rparr>,
      \<lparr>car_name = ''b'', car_x = 3, car_y = 5, car_size = 2, car_direction = VERTICAL\<rparr>] \<and>
   same_layout two_cars two_cars"
proof -
  let ?t = "[\<lparr>car_name = ''r'', car_x = 2, car_y = 4, car_size = 2, car_direction = HORIZONTAL\<rparr>,
      \<lparr>car_name = ''b'', car_x = 3, car_y = 5, car_size = 2, car_direction = VERTICAL\<rparr>]"
  have "?t \<in> set (fst (possible_moves two_cars))" by (simp add: two_cars_moves)
  moreover have "(two_cars, two_cars) \<in> move_rel\<^sup>*" by simp
  ultimately show ?thesis
    using successors_keep_layout [of ?t two_cars two_cars two_cars two_cars] by blast
qed

text \<open>
  Claim C10, as amended. Board construction raises an error exactly when some car cannot be
  written: its direction is neither horizontal nor vertical (ValueError), or one of its
  cells has a row or column index outside \<open>-6 .. 5\<close> (IndexError); each kind of error has
  its kind of cause. When every car is horizontal or vertical with its footprint inside the
  grid, overlapping or not, no error is raised, every cell covered by some car holds the name
  of the latest car of the tuple covering it, and every other cell holds the empty marker.
\<close>

theorem get_board_errors_and_overwrite:
  "((\<exists>e. get_board cars = Inl e) \<longleftrightarrow>
      (\<exists>c \<in> set cars. (car_direction c \<noteq> HORIZONTAL \<and> car_direction c \<noteq> VERTICAL) \<or>
                        (\<exists>p \<in> set (footprint c). \<not> writable p))) \<and>
   (get_board cars = Inl ValueError \<longrightarrow>
      (\<exists>c \<in> set cars. car_direction c \<noteq> HORIZONTAL \<and> car_direction c \<noteq> VERTICAL)) \<and>
   (get_board cars = Inl IndexError \<longrightarrow>
      (\<exists>c \<in> set cars. \<exists>p \<in> set (footprint c). \<not> writable p)) \<and>
   ((\<forall>c \<in> set cars. (car_direction c = HORIZONTAL \<or> car_direction c = VERTICAL) \<and>
                      (\<forall>p \<in> set (footprint c). in_grid p)) \<longrightarrow>
      (\<exists>b. get_board cars = Inr b \<and>
           (\<forall>i < 6. \<forall>j < 6.
              (\<forall>k < length cars.
                  (int i, int j) \<in> set (footprint (cars ! k)) \<and>
                  (\<forall>m. k < m \<and> m < length cars \<longrightarrow> (int i, int j) \<notin> set (footprint (cars ! m)))
                  \<longrightarrow> b ! i ! j = car_name (cars ! k)) \<and>
              ((\<forall>c \<in> set cars. (int i, int j) \<notin> set (footprint c)) \<longrightarrow> b ! i ! j = EMPTY_CELL))))"
proof (intro conjI impI)
  have "(\<exists>e. get_board cars = Inl e) \<longleftrightarrow> \<not> (\<exists>b. get_board cars = Inr b)"
    by (cases "get_board cars") auto
  also have "\<dots> \<longleftrightarrow> (\<exists>c \<in> set cars. \<not> placeable c)"
    by (simp add: get_board_ok_iff)
  finally show "(\<exists>e. get_board cars = Inl e) \<longleftrightarrow>
      (\<exists>c \<in> set cars. (car_direction c \<noteq> HORIZONTAL \<and> car_direction c \<noteq> VERTICAL) \<or>
                        (\<exists>p \<in> set (footprint c). \<not> writable p))"
    by (auto simp: placeable_def)
next
  assume "get_board cars = Inl ValueError"
  then have "place_cars empty_board cars = Inl ValueError" by (simp add: get_board_def)
  from place_cars_err_kind [OF shape_empty_board this]
  show "\<exists>c \<in> set cars. car_direction c \<noteq> HORIZONTAL \<and> car_direction c \<noteq> VERTICAL" by simp
next
  assume "get_board cars = Inl IndexError"
  then have "place_cars empty_board cars = Inl IndexError" by (simp add: get_board_def)
  from place_cars_err_kind [OF shape_empty_board this]
  show "\<exists>c \<in> set cars. \<exists>p \<in> set (footprint c). \<not> writable p" by simp
next
  assume a: "\<forall>c \<in> set cars. (car_direction c = HORIZONTAL \<or> car_direction c = VERTICAL) \<and>
                      (\<forall>p \<in> set (footprint c). in_grid p)"
  then have "\<forall>c \<in> set cars. placeable c"
    by (auto simp: placeable_def dest: in_grid_writable)
  then obtain b where b: "get_board cars = Inr b" using get_board_ok_iff [of cars] by auto
  have g: "\<forall>c \<in> set cars. \<forall>p \<in> set (footprint c). in_grid p" using a by simp
  have "b ! i ! j = car_name (cars ! k)"
    if "i < 6" "j < 6" "k < length cars" "(int i, int j) \<in> set (footprint (cars ! k))"
      "\<forall>m. k < m \<and> m < length cars \<longrightarrow> (int i, int j) \<notin> set (footprint (cars ! m))"
    for i j k
    using b g that by (rule get_board_latest)
  moreover have "b ! i ! j = EMPTY_CELL"
    if "i < 6" "j < 6" "\<forall>c \<in> set cars. (int i, int j) \<notin> set (footprint c)" for i j
    using b g that by (rule get_board_uncovered)
  ultimately show "\<exists>b. get_board cars = Inr b \<and>
           (\<forall>i < 6. \<forall>j < 6.
              (\<forall>k < length cars.
                  (int i, int j) \<in> set (footprint (cars ! k)) \<and>
                  (\<forall>m. k < m \<and> m < length cars \<longrightarrow> (int i, int j) \<notin> set (footprint (cars ! m)))
                  \<longrightarrow> b ! i ! j = car_name (cars ! k)) \<and>
              ((\<forall>c \<in> set cars. (int i, int j) \<notin> set (footprint c)) \<longrightarrow> b ! i ! j = EMPTY_CELL))"
    using b by blast
qed

theorem get_board_errors_and_overwrite_witness:
  "\<exists>b. get_board overlap_example = Inr b \<and> b ! 0 ! 1 = ''b'' \<and> b ! 0 ! 3 = EMPTY_CELL"
proof -
  have fits: "\<forall>c \<in> set overlap_example.
      (car_direction c = HORIZONTAL \<or> car_direction c = VERTICAL) \<and>
      (\<forall>p \<in> set (footprint c). in_grid p)"
    by (simp add: overlap_example_def footprint_def py_range_def upt_rec in_grid_def BOARD_SIZE_def)
  from get_board_errors_and_overwrite [of overlap_example] fits
  obtain b where b: "get_board overlap_example = Inr b"
    and cells: "\<forall>i < 6. \<forall>j < 6.
              (\<forall>k < length overlap_example.
                  (int i, int j) \<in> set (footprint (overlap_example ! k)) \<and>
                  (\<forall>m. k < m \<and> m < length overlap_example \<longrightarrow>
                       (int i, int j) \<notin> set (footprint (overlap_example ! m)))
                  \<longrightarrow> b ! i ! j = car_name (overlap_example ! k)) \<and>
              ((\<forall>c \<in> set overlap_example. (int i, int j) \<notin> set (footprint c)) \<longrightarrow>
                  b ! i ! j = EMPTY_CELL)"
    by blast
  have len: "length overlap_example = 2" by (simp add: overlap_example_def)
  have n: "(0::nat) < 6" "(1::nat) < 6" "(3::nat) < 6" by simp_all
  have later: "\<forall>m. Suc 0 < m \<and> m < length overlap_example \<longrightarrow>
             (int 0, int 1) \<notin> set (footprint (overlap_example ! m))"
    unfolding len by auto
  have here: "(int 0, int 1) \<in> set (footprint (overlap_example ! Suc 0))"
    by (simp add: footprint_overlap_example)
  have k: "Suc 0 < length overlap_example" unfolding len by simp
  from cells [rule_format, OF n(1) n(2), THEN conjunct1, rule_format, OF k] here later
  have "b ! 0 ! 1 = car_name (overlap_example ! Suc 0)" by blast
  then have c1: "b ! 0 ! 1 = ''b''" by (simp add: overlap_example_def)
  have "\<forall>c \<in> set overlap_example. (int 0, int 3) \<notin> set (footprint c)"
    by (simp add: overlap_example_def footprint_def py_range_def upt_rec)
  with cells [rule_format, OF n(1) n(3), THEN conjunct2]
  have c2: "b ! 0 ! 3 = EMPTY_CELL" by blast
  show ?thesis using b c1 c2 by blast
qed

text \<open>
  Claim C10 as stated fails: a horizontal car in row 6 makes board construction raise
  IndexError, although every direction of the state is a member of the enum.
\<close>

theorem get_board_error_counterexample:
  "get_board outside_example = Inl IndexError \<and>
   car_direction (outside_example ! 0) = HORIZONTAL \<and> length outside_example = 1"
  by (simp add: outside_example_def get_board_def place_car_def py_range_def upt_rec
      set_cell_def getitem_def setitem_def norm_index_def empty_board_def BOARD_SIZE_def)

end
